theory Spec2Isabelle
  imports Main "HOL-Library.Sublist"
begin

section \<open>Python strings, lists and files\<close>

text \<open>
  A Python \<open>str\<close> is a sequence of Unicode code points; the scripts handle text that
  holds characters outside Latin-1 (the replacement blocks contain U+0600 and U+06FF),
  so a text is a list of code points. \<open>cps\<close> reads an ASCII literal as such a list,
  and \<open>unlines\<close> writes a triple-quoted literal line by line: every line of it,
  the last one too, ends in a line feed.
\<close>

type_synonym str = "nat list"

definition cps :: "string \<Rightarrow> str" where
  "cps s = map of_char s"

definition unlines :: "str list \<Rightarrow> str" where
  "unlines ls = concat (map (\<lambda>l. l @ [10]) ls)"

text \<open>
  The exceptions the scripts can raise: \<open>Path.read_text\<close> on a missing file, and
  \<open>str.index\<close> / \<open>list.index\<close> when nothing is found. None of the scripts
  catches either, so an error ends the run at the statement that raised it.
\<close>

datatype error = FileNotFoundError | ValueError

text \<open>
  \<open>sub\<close> occurs in \<open>s\<close> at offset \<open>k\<close>: \<open>s[k:k+len(sub)] == sub\<close> with the
  slice inside the string.
\<close>

definition occurs_at :: "'a list \<Rightarrow> 'a list \<Rightarrow> nat \<Rightarrow> bool" where
  "occurs_at sub s k \<longleftrightarrow> k + length sub \<le> length s \<and> take (length sub) (drop k s) = sub"

text \<open>\<open>j\<close> is the lowest offset \<open>\<ge> start\<close> at which \<open>sub\<close> occurs in \<open>s\<close>.\<close>

definition first_occurrence :: "'a list \<Rightarrow> 'a list \<Rightarrow> nat \<Rightarrow> nat \<Rightarrow> bool" where
  "first_occurrence sub s start j \<longleftrightarrow>
     start \<le> j \<and> occurs_at sub s j \<and> (\<forall>k \<in> {start..<j}. \<not> occurs_at sub s k)"

text \<open>
  \<open>find_from sub s i\<close> scans \<open>s\<close> from its head, which sits at offset \<open>i\<close> of the
  whole string, and returns the offset of the first match.
\<close>

fun find_from :: "'a list \<Rightarrow> 'a list \<Rightarrow> nat \<Rightarrow> nat option" where
  "find_from sub [] i = (if sub = [] then Some i else None)"
| "find_from sub (c # cs) i =
     (if prefix sub (c # cs) then Some i else find_from sub cs (Suc i))"

text \<open>
  \<open>s.index(sub, start)\<close> for \<open>start \<ge> 0\<close>: the lowest offset \<open>\<ge> start\<close> at which
  \<open>sub\<close> occurs, \<open>ValueError\<close> when there is none (also when \<open>start > len(s)\<close>).
\<close>

definition str_index :: "'a list \<Rightarrow> 'a list \<Rightarrow> nat \<Rightarrow> error + nat" where
  "str_index s sub start =
     (if length s < start then Inl ValueError
      else case find_from sub (drop start s) start of
             None \<Rightarrow> Inl ValueError
           | Some i \<Rightarrow> Inr i)"

text \<open>\<open>sub in s\<close>.\<close>

definition str_contains :: "'a list \<Rightarrow> 'a list \<Rightarrow> bool" where
  "str_contains sub s \<longleftrightarrow> find_from sub s 0 \<noteq> None"

text \<open>
  \<open>s.replace(old, new)\<close>: the occurrences of \<open>old\<close> are taken from the left and do
  not overlap; an empty \<open>old\<close> matches before every character and at the end.
\<close>

function str_replace :: "'a list \<Rightarrow> 'a list \<Rightarrow> 'a list \<Rightarrow> 'a list" where
  "str_replace s old new =
     (if old = [] then new @ concat (map (\<lambda>c. c # new) s)
      else if s = [] then []
      else if prefix old s then new @ str_replace (drop (length old) s) old new
      else hd s # str_replace (tl s) old new)"
  by pat_completeness auto
termination
  by (relation "measure (\<lambda>(s, old, new). length s)") auto

declare str_replace.simps [simp del]

text \<open>
  What replacing every occurrence means, apart from the code: the occurrences are taken
  from the left, each one starting where the one before has ended. \<open>r\<close> is \<open>t\<close> with
  every such occurrence of \<open>old\<close> replaced by \<open>new\<close>.
\<close>

inductive every_occurrence_replaced :: "'a list \<Rightarrow> 'a list \<Rightarrow> 'a list \<Rightarrow> 'a list \<Rightarrow> bool"
  for old new :: "'a list" where
  none_left: "\<forall>k. \<not> occurs_at old t k \<Longrightarrow> every_occurrence_replaced old new t t"
| replace_first:
    "first_occurrence old t 0 i \<Longrightarrow>
     every_occurrence_replaced old new (drop (i + length old) t) r \<Longrightarrow>
     every_occurrence_replaced old new t (take i t @ new @ r)"

text \<open>
  \<open>s.splitlines()\<close>: a line ends at \<open>\n\<close>, \<open>\r\<close>, \<open>\r\n\<close>, \<open>\v\<close>, \<open>\f\<close>,
  \<open>\x1c\<close>, \<open>\x1d\<close>, \<open>\x1e\<close>, \<open>\x85\<close>, U+2028 or U+2029; the line ends are dropped
  and a final line end opens no empty last line. \<open>cur\<close> is the line read so far.
\<close>

definition line_boundary :: "nat \<Rightarrow> bool" where
  "line_boundary c \<longleftrightarrow> c \<in> {0x0A, 0x0B, 0x0C, 0x0D, 0x1C, 0x1D, 0x1E, 0x85, 0x2028, 0x2029}"

fun splitlines_from :: "str \<Rightarrow> str \<Rightarrow> str list" where
  "splitlines_from cur [] = (if cur = [] then [] else [cur])"
| "splitlines_from cur [c] = (if line_boundary c then [cur] else [cur @ [c]])"
| "splitlines_from cur (c # d # cs) =
     (if c = 0x0D \<and> d = 0x0A then cur # splitlines_from [] cs
      else if line_boundary c then cur # splitlines_from [] (d # cs)
      else splitlines_from (cur @ [c]) (d # cs))"

definition splitlines :: "str \<Rightarrow> str list" where
  "splitlines s = splitlines_from [] s"

text \<open>\<open>s.split(sep)\<close> for a separator of one character.\<close>

fun split_on :: "'a \<Rightarrow> 'a list \<Rightarrow> 'a list list" where
  "split_on sep [] = [[]]"
| "split_on sep (c # cs) =
     (if c = sep then [] # split_on sep cs
      else (case split_on sep cs of
              [] \<Rightarrow> [[c]]
            | l # ls \<Rightarrow> (c # l) # ls))"

text \<open>\<open>sep.join(ls)\<close>.\<close>

fun join :: "'a list \<Rightarrow> 'a list list \<Rightarrow> 'a list" where
  "join sep [] = []"
| "join sep [l] = l"
| "join sep (l # m # ls) = l @ sep @ join sep (m # ls)"

text \<open>\<open>ls.index(x)\<close>: the position of the first element equal to \<open>x\<close>.\<close>

fun index_of :: "'a \<Rightarrow> 'a list \<Rightarrow> nat option" where
  "index_of x [] = None"
| "index_of x (y # ys) = (if y = x then Some 0 else map_option Suc (index_of x ys))"

text \<open>\<open>i\<close> is the first position of \<open>x\<close> in \<open>ls\<close>.\<close>

definition first_index :: "'a \<Rightarrow> 'a list \<Rightarrow> nat \<Rightarrow> bool" where
  "first_index x ls i \<longleftrightarrow> i < length ls \<and> ls ! i = x \<and> (\<forall>k<i. ls ! k \<noteq> x)"

definition list_index :: "'a list \<Rightarrow> 'a \<Rightarrow> error + nat" where
  "list_index ls x = (case index_of x ls of None \<Rightarrow> Inl ValueError | Some i \<Rightarrow> Inr i)"

text \<open>
  The state a script runs in: the files on disk, by path, as the text \<open>read_text\<close>
  returns for them, and the lines printed so far.
\<close>

record world =
  files :: "string \<rightharpoonup> str"
  console :: "string list"

definition read_text :: "world \<Rightarrow> string \<Rightarrow> error + str" where
  "read_text w p = (case files w p of None \<Rightarrow> Inl FileNotFoundError | Some t \<Rightarrow> Inr t)"

definition write_text :: "world \<Rightarrow> string \<Rightarrow> str \<Rightarrow> world" where
  "write_text w p t = w\<lparr>files := (files w)(p \<mapsto> t)\<rparr>"

definition print :: "world \<Rightarrow> string \<Rightarrow> world" where
  "print w msg = w\<lparr>console := console w @ [msg]\<rparr>"

section \<open>fix_translate_block.py\<close>

definition translations_ts :: string where
  "translations_ts = ''lib/translations.ts''"

definition start_marker :: str where
  "start_marker = cps ''export function translate''"

definition end_marker :: str where
  "end_marker = cps ''export function registerTranslation''"

text \<open>
  The literal is not a raw string, so Python reads its two \<open>\u\<close> escapes as the
  characters U+0600 and U+06FF.
\<close>

definition new_block :: str where
  "new_block = unlines
    [cps ''export function translate('',
     cps ''  language: LanguageCode,'',
     cps ''  englishPhrase: string,'',
     cps ''  fallbackUrdu?: string'',
     cps ''): string {'',
     cps ''  const fixMojibake = (value: string) => {'',
     cps ''    try {'',
     cps ''      const decoded = Buffer.from(value, 'binary').toString('utf8');'',
     cps ''      const hasArabic = /['' @ [0x0600] @ cps ''-'' @ [0x06FF] @ cps '']/.test(decoded);'',
     cps ''      if (hasArabic) {'',
     cps ''        return decoded;'',
     cps ''      }'',
     cps ''    } catch {'',
     cps ''      // ignore decode issues'',
     cps ''    }'',
     cps ''    return value;'',
     cps ''  };'',
     [],
     cps ''  const entry = TRANSLATION_DICTIONARY[englishPhrase];'',
     [],
     cps ''  if (entry) {'',
     cps ''    if (language === 'english') {'',
     cps ''      return entry[0];'',
     cps ''    }'',
     cps ''    if (language === 'urdu') {'',
     cps ''      return fixMojibake(entry[1]);'',
     cps ''    }'',
     cps ''    return entry[0];'',
     cps ''  }'',
     [],
     cps ''  if (language === 'urdu') {'',
     cps ''    return fixMojibake(fallbackUrdu ?? englishPhrase);'',
     cps ''  }'',
     [],
     cps ''  return englishPhrase;'',
     cps ''}'']"

text \<open>
  Lines 4, 5 and 43 of the script, with the two markers and the block as parameters:
  \<^verbatim>\<open>
  start = text.index(START)
  end = text.index(END, start)
  text = text[:start] + new_block + text[end:]
  \<close>
\<close>

definition rewrite_block :: "'a list \<Rightarrow> 'a list \<Rightarrow> 'a list \<Rightarrow> 'a list \<Rightarrow> error + 'a list" where
  "rewrite_block START END block txt =
     (case str_index txt START 0 of
        Inl e \<Rightarrow> Inl e
      | Inr start \<Rightarrow>
          (case str_index txt END start of
             Inl e \<Rightarrow> Inl e
           | Inr end \<Rightarrow> Inr (take start txt @ block @ drop end txt)))"

text \<open>The whole script: read, splice, write back, report.\<close>

definition fix_translate_block :: "world \<Rightarrow> (error + unit) \<times> world" where
  "fix_translate_block w =
     (case read_text w translations_ts of
        Inl e \<Rightarrow> (Inl e, w)
      | Inr txt \<Rightarrow>
          (case rewrite_block start_marker end_marker new_block txt of
             Inl e \<Rightarrow> (Inl e, w)
           | Inr txt' \<Rightarrow>
               (Inr (), print (write_text w translations_ts txt') ''translate block rewritten'')))"

section \<open>fix_vendor.py\<close>

definition vendor_account_tsx :: string where
  "vendor_account_tsx = ''app/modals/vendor-account.tsx''"

definition import_marker :: str where
  "import_marker = cps ''import {''"

definition header_text :: str where
  "header_text = unlines
    [cps ''import React, { useEffect, useMemo, useState } from 'react';'',
     cps ''import * as ImagePicker from 'expo-image-picker';'',
     cps ''import { Alert, KeyboardAvoidingView, Modal, Platform, ScrollView, StyleSheet, Text, TextInput, TouchableOpacity, View, Image } from 'react-native';'']"

text \<open>
  \<open>new_header\<close> is the literal split at its line feeds, so its last element is the
  empty string after the final line feed.
\<close>

definition new_header :: "str list" where
  "new_header = split_on 10 header_text"

text \<open>
  Lines 5, 11 and 12: the one \<open>lines.index\<close> call finds the first line equal to the
  marker; everything up to and including it is dropped.
\<close>

definition header_splice :: "str list \<Rightarrow> error + str list" where
  "header_splice lines =
     (case list_index lines import_marker of
        Inl e \<Rightarrow> Inl e
      | Inr second_import \<Rightarrow> Inr (new_header @ drop (second_import + 1) lines))"

definition fix_vendor :: "world \<Rightarrow> (error + unit) \<times> world" where
  "fix_vendor w =
     (case read_text w vendor_account_tsx of
        Inl e \<Rightarrow> (Inl e, w)
      | Inr txt \<Rightarrow>
          (case header_splice (splitlines txt) of
             Inl e \<Rightarrow> (Inl e, w)
           | Inr new_lines \<Rightarrow>
               (Inr (), print (write_text w vendor_account_tsx (join [10] new_lines)) ''rewrote header'')))"

section \<open>patch_translate.py\<close>

definition old :: str where
  "old = unlines
    [cps ''export function translate('',
     [],
     cps ''  language: LanguageCode,'',
     [],
     cps ''  englishPhrase: string,'',
     [],
     cps ''  fallbackUrdu?: string'',
     [],
     cps ''): string {'',
     [],
     cps ''  const entry = TRANSLATION_DICTIONARY[englishPhrase];'',
     [],
     cps ''  if (entry) {'',
     cps ''    if (language === 'english') {'',
     cps ''      return entry[0];'',
     cps ''    }'',
     cps ''    if (language === 'urdu') {'',
     cps ''      return entry[1];'',
     cps ''    }'',
     cps ''    return entry[0];'',
     cps ''  }'',
     [],
     cps ''  if (language === 'urdu') {'',
     cps ''    return fallbackUrdu ?? englishPhrase;'',
     cps ''  }'',
     [],
     cps ''  return englishPhrase;'',
     [],
     cps ''}'']"

definition new :: str where
  "new = unlines
    [cps ''export function translate('',
     cps ''  language: LanguageCode,'',
     cps ''  englishPhrase: string,'',
     cps ''  fallbackUrdu?: string'',
     cps ''): string {'',
     cps ''  const fixMojibake = (value: string) => {'',
     cps ''    try {'',
     cps ''      const decoded = Buffer.from(value, 'binary').toString('utf8')'',
     cps ''      const hasArabic = /['' @ [0x0600] @ cps ''-'' @ [0x06FF] @ cps '']/.test(decoded)'',
     cps ''      if (hasArabic):'',
     cps ''        return decoded'',
     cps ''    except Exception:'',
     cps ''      pass'',
     cps ''    return value'',
     cps ''  }'',
     [],
     cps ''  const entry = TRANSLATION_DICTIONARY[englishPhrase]'',
     [],
     cps ''  if (entry):'',
     cps ''    if (language == 'english'):'',
     cps ''      return entry[0]'',
     cps ''    if (language == 'urdu'):'',
     cps ''      return fixMojibake(entry[1])'',
     cps ''    return entry[0]'',
     [],
     cps ''  if (language == 'urdu'):'',
     cps ''    return fixMojibake(fallbackUrdu or englishPhrase)'',
     [],
     cps ''  return englishPhrase'',
     [],
     cps ''}'']"

definition patch_translate :: "world \<Rightarrow> (error + unit) \<times> world" where
  "patch_translate w =
     (case read_text w translations_ts of
        Inl e \<Rightarrow> (Inl e, w)
      | Inr txt \<Rightarrow>
          (if \<not> str_contains old txt then (Inr (), print w ''old block not found'')
           else (Inr (), print (write_text w translations_ts (str_replace txt old new)) ''replaced'')))"

section \<open>temp.py\<close>

text \<open>
  The script computes \<open>body\<close> and binds its own \<open>old\<close> and \<open>new\<close> literals, uses
  none of them, and prints one line. Its \<open>old\<close> is the literal of patch_translate.py.
\<close>

definition temp_new :: str where
  "temp_new = unlines
    [cps ''export function translate('',
     cps ''  language: LanguageCode,'',
     cps ''  englishPhrase: string,'',
     cps ''  fallbackUrdu?: string'',
     cps ''): string {'',
     cps ''  const fixMojibake = (value: string) => {'',
     cps ''    try {'',
     cps ''      const decoded = Buffer.from(value, 'binary').toString('utf8');'',
     cps ''      const hasArabic = /['' @ [0x0600] @ cps ''-'' @ [0x06FF] @ cps '']/.test(decoded);'',
     cps ''      if (hasArabic) {'',
     cps ''        return decoded;'',
     cps ''      }'',
     cps ''    } catch:'',
     cps ''      pass'',
     cps ''    return value;'',
     cps ''  }'',
     [],
     cps ''  const entry = TRANSLATION_DICTIONARY[englishPhrase];'',
     [],
     cps ''  if (entry) {'',
     cps ''    if (language == 'english'):'',
     cps ''      return entry[0]'',
     cps ''    if (language == 'urdu'):'',
     cps ''      return fixMojibake(entry[1])'',
     cps ''    return entry[0]'',
     cps ''  }'',
     [],
     cps ''  if (language == 'urdu'):'',
     cps ''    return fixMojibake(fallbackUrdu or englishPhrase)'',
     [],
     cps ''  return englishPhrase'',
     [],
     cps ''}'']"

definition temp :: "world \<Rightarrow> (error + unit) \<times> world" where
  "temp w =
     (case read_text w translations_ts of
        Inl e \<Rightarrow> (Inl e, w)
      | Inr t \<Rightarrow>
          (case str_index t start_marker 0 of
             Inl e \<Rightarrow> (Inl e, w)
           | Inr start \<Rightarrow>
               (case str_index t end_marker start of
                  Inl e \<Rightarrow> (Inl e, w)
                | Inr end \<Rightarrow>
                    (let body = take (end - start) (drop start t);
                         old' = old;
                         new' = temp_new
                     in (Inr (), print w ''please rewrite manually'')))))"

section \<open>fixMojibake, the helper inside new_block\<close>

text \<open>
  The block that fix_translate_block.py writes defines, in TypeScript,
  \<^verbatim>\<open>
  const fixMojibake = (value: string) => {
    try {
      const decoded = Buffer.from(value, 'binary').toString('utf8');
      const hasArabic = /[\u0600-\u06ff]/.test(decoded);
      if (hasArabic) {
        return decoded;
      }
    } catch {
      // ignore decode issues
    }
    return value;
  };
  \<close>
  A JavaScript string is a sequence of UTF-16 code units, a buffer a sequence of bytes;
  both are lists of numbers here.
\<close>

type_synonym jsstring = "nat list"

type_synonym bytes = "nat list"

text \<open>\<open>/[\u0600-\u06ff]/.test(decoded)\<close>: some code unit lies in the Arabic block.\<close>

definition has_arabic :: "jsstring \<Rightarrow> bool" where
  "has_arabic decoded \<longleftrightarrow> list_ex (\<lambda>c. 0x0600 \<le> c \<and> c \<le> 0x06FF) decoded"

text \<open>
  \<open>Buffer\<close> is not defined by the block: it is whatever the program that runs the
  function provides. The two calls on it are parameters of the model, each returning
  \<open>None\<close> when it throws (a runtime without a global \<open>Buffer\<close> throws at the first).
\<close>

record runtime =
  buffer_from :: "jsstring \<Rightarrow> bytes option"
  to_string :: "bytes \<Rightarrow> jsstring option"

text \<open>
  The function: whatever is thrown inside \<open>try\<close> is caught and ignored, and the
  function then returns \<open>value\<close>, as it does when the test finds no Arabic character.
\<close>

definition fixMojibake :: "runtime \<Rightarrow> jsstring \<Rightarrow> jsstring" where
  "fixMojibake rt v =
     (case buffer_from rt v of
        None \<Rightarrow> v
      | Some buf \<Rightarrow>
          (case to_string rt buf of
             None \<Rightarrow> v
           | Some decoded \<Rightarrow>
               (let hasArabic = has_arabic decoded
                in if hasArabic then decoded else v)))"

subsection \<open>The Buffer of Node.js\<close>

text \<open>
  \<open>Buffer.from(value, 'binary')\<close> in Node.js: \<open>'binary'\<close> is the Latin-1 encoding,
  which stores the low byte of every code unit. A code unit above 255 is truncated, not
  refused, and the call does not throw on a string.
\<close>

definition buffer_from_binary :: "jsstring \<Rightarrow> bytes" where
  "buffer_from_binary v = map (\<lambda>c. c mod 256) v"

text \<open>
  \<open>buf.toString('utf8')\<close> in Node.js decodes UTF-8 and never throws: a malformed
  sequence becomes U+FFFD and decoding goes on. The decoder is the one of the Encoding
  Standard: between characters it is \<open>Idle\<close>; inside one it holds the code point read
  so far, the number of bytes still needed and the range allowed for the next byte.
\<close>

datatype utf8_state = Idle | Pending nat nat nat nat

definition utf8_lead :: "nat \<Rightarrow> nat list \<times> utf8_state" where
  "utf8_lead b =
     (if b < 0x80 then ([b], Idle)
      else if 0xC2 \<le> b \<and> b \<le> 0xDF then ([], Pending (b mod 32) 1 0x80 0xBF)
      else if 0xE0 \<le> b \<and> b \<le> 0xEF then
        ([], Pending (b mod 16) 2 (if b = 0xE0 then 0xA0 else 0x80) (if b = 0xED then 0x9F else 0xBF))
      else if 0xF0 \<le> b \<and> b \<le> 0xF4 then
        ([], Pending (b mod 8) 3 (if b = 0xF0 then 0x90 else 0x80) (if b = 0xF4 then 0x8F else 0xBF))
      else ([0xFFFD], Idle))"

text \<open>
  One byte. A byte outside the allowed range ends the pending character with U+FFFD and
  is then read again as the first byte of the next one.
\<close>

fun utf8_handler :: "utf8_state \<Rightarrow> nat \<Rightarrow> nat list \<times> utf8_state" where
  "utf8_handler Idle b = utf8_lead b"
| "utf8_handler (Pending cp needed lower upper) b =
     (if lower \<le> b \<and> b \<le> upper then
        (if needed = 1 then ([cp * 64 + b mod 64], Idle)
         else ([], Pending (cp * 64 + b mod 64) (needed - 1) 0x80 0xBF))
      else (case utf8_lead b of (out, st) \<Rightarrow> (0xFFFD # out, st)))"

fun utf8_decode_from :: "utf8_state \<Rightarrow> bytes \<Rightarrow> nat list" where
  "utf8_decode_from st [] = (case st of Idle \<Rightarrow> [] | Pending cp needed lower upper \<Rightarrow> [0xFFFD])"
| "utf8_decode_from st (b # bs) =
     (case utf8_handler st b of (out, st') \<Rightarrow> out @ utf8_decode_from st' bs)"

text \<open>A code point as UTF-16: one code unit, or a surrogate pair from U+10000 on.\<close>

definition utf16_units :: "nat \<Rightarrow> jsstring" where
  "utf16_units cp =
     (if cp < 0x10000 then [cp]
      else [0xD800 + (cp - 0x10000) div 0x400, 0xDC00 + (cp - 0x10000) mod 0x400])"

definition to_string_utf8 :: "bytes \<Rightarrow> jsstring" where
  "to_string_utf8 bs = concat (map utf16_units (utf8_decode_from Idle bs))"

text \<open>The runtime of Node.js, and one that has no \<open>Buffer\<close> at all.\<close>

definition node :: runtime where
  "node = \<lparr>buffer_from = (\<lambda>v. Some (buffer_from_binary v)),
            to_string = (\<lambda>buf. Some (to_string_utf8 buf))\<rparr>"

definition no_buffer :: runtime where
  "no_buffer = \<lparr>buffer_from = (\<lambda>v. None), to_string = (\<lambda>buf. None)\<rparr>"

subsection \<open>Mojibake\<close>

text \<open>
  Mojibake, apart from the code: a text (a list of Unicode scalar values) was stored as
  UTF-8 and its bytes were then read as Latin-1 characters, one code unit per byte.
\<close>

definition scalar_value :: "nat \<Rightarrow> bool" where
  "scalar_value c \<longleftrightarrow> c < 0xD800 \<or> (0xE000 \<le> c \<and> c \<le> 0x10FFFF)"

definition utf8_encode1 :: "nat \<Rightarrow> bytes" where
  "utf8_encode1 c =
     (if c < 0x80 then [c]
      else if c < 0x800 then [0xC0 + c div 64, 0x80 + c mod 64]
      else if c < 0x10000 then [0xE0 + c div 4096, 0x80 + (c div 64) mod 64, 0x80 + c mod 64]
      else [0xF0 + c div 262144, 0x80 + (c div 4096) mod 64, 0x80 + (c div 64) mod 64,
            0x80 + c mod 64])"

definition mojibake_of :: "nat list \<Rightarrow> jsstring" where
  "mojibake_of d = concat (map utf8_encode1 d)"


section \<open>Sample inputs\<close>

definition demo_ts :: str where
  "demo_ts = cps ''// x\<newline>export function translate(a) {}\<newline>export function registerTranslation() {}\<newline>''"

definition demo_world :: world where
  "demo_world = \<lparr>files = [translations_ts \<mapsto> demo_ts], console = []\<rparr>"

definition swapped_ts :: str where
  "swapped_ts = cps ''export function registerTranslation() {}\<newline>export function translate(a) {}\<newline>''"

definition swapped_world :: world where
  "swapped_world = \<lparr>files = [translations_ts \<mapsto> swapped_ts], console = []\<rparr>"

definition two_markers :: "str list" where
  "two_markers = [cps ''import {'', cps ''x'', cps ''import {'', cps ''y'']"

definition none_tsx :: str where
  "none_tsx = cps ''import React from 'react';\<newline>const a = 1;\<newline>''"

definition none_world :: world where
  "none_world = \<lparr>files = [vendor_account_tsx \<mapsto> none_tsx], console = []\<rparr>"

definition once_tsx :: str where
  "once_tsx = cps ''// vendor account\<newline>import React from 'react';\<newline>import {\<newline>  View,\<newline>} from 'react-native';\<newline>''"

definition once_world :: world where
  "once_world = \<lparr>files = [vendor_account_tsx \<mapsto> once_tsx], console = []\<rparr>"

definition twice_tsx :: str where
  "twice_tsx = cps ''import {\<newline>x\<newline>import {\<newline>y\<newline>''"

definition twice_world :: world where
  "twice_world = \<lparr>files = [vendor_account_tsx \<mapsto> twice_tsx], console = []\<rparr>"

definition unpatched_ts :: str where
  "unpatched_ts = cps ''// top\<newline>'' @ old @ cps ''// tail\<newline>''"

definition unpatched_world :: world where
  "unpatched_world = \<lparr>files = [translations_ts \<mapsto> unpatched_ts], console = []\<rparr>"


section \<open>Searching in strings\<close>

lemma occurs_at_prefix: "occurs_at sub s k \<longleftrightarrow> k \<le> length s \<and> prefix sub (drop k s)"
proof
  assume a: "occurs_at sub s k"
  then have "drop k s = sub @ drop (length sub) (drop k s)"
    unfolding occurs_at_def by (metis append_take_drop_id)
  with a show "k \<le> length s \<and> prefix sub (drop k s)"
    unfolding occurs_at_def prefix_def by auto
next
  assume a: "k \<le> length s \<and> prefix sub (drop k s)"
  then obtain r where r: "drop k s = sub @ r" by (auto simp: prefix_def)
  then have "length s - k = length sub + length r" by (metis length_append length_drop)
  with a r show "occurs_at sub s k" unfolding occurs_at_def by auto
qed

lemma occurs_at_Nil: "occurs_at sub [] k \<longleftrightarrow> sub = [] \<and> k = 0"
  by (auto simp: occurs_at_def)

lemma occurs_at_0: "occurs_at sub s 0 \<longleftrightarrow> prefix sub s"
  by (simp add: occurs_at_prefix)

lemma occurs_at_Suc: "occurs_at sub (c # cs) (Suc k) \<longleftrightarrow> occurs_at sub cs k"
  by (simp add: occurs_at_prefix)

lemma find_from_None: "find_from sub s i = None \<longleftrightarrow> (\<forall>k. \<not> occurs_at sub s k)"
proof (induction s arbitrary: i)
  case Nil
  show ?case by (auto simp: occurs_at_Nil)
next
  case (Cons c cs)
  show ?case
  proof (cases "prefix sub (c # cs)")
    case True
    then show ?thesis using occurs_at_0 [of sub "c # cs"] by auto
  next
    case False
    have "(\<forall>k. \<not> occurs_at sub (c # cs) k) \<longleftrightarrow> (\<forall>k. \<not> occurs_at sub cs k)"
    proof
      assume a: "\<forall>k. \<not> occurs_at sub (c # cs) k"
      show "\<forall>k. \<not> occurs_at sub cs k" using a occurs_at_Suc [of sub c cs] by blast
    next
      assume a: "\<forall>k. \<not> occurs_at sub cs k"
      show "\<forall>k. \<not> occurs_at sub (c # cs) k"
      proof
        fix k show "\<not> occurs_at sub (c # cs) k"
          using a False by (cases k) (simp_all add: occurs_at_0 occurs_at_Suc)
      qed
    qed
    with False Cons.IH show ?thesis by simp
  qed
qed

lemma find_from_Some:
  "find_from sub s i = Some j \<longleftrightarrow>
     i \<le> j \<and> occurs_at sub s (j - i) \<and> (\<forall>k < j - i. \<not> occurs_at sub s k)"
proof (induction s arbitrary: i)
  case Nil
  show ?case by (auto simp: occurs_at_Nil)
next
  case (Cons c cs)
  show ?case
  proof (cases "prefix sub (c # cs)")
    case True
    have "(i \<le> j \<and> occurs_at sub (c # cs) (j - i) \<and> (\<forall>k < j - i. \<not> occurs_at sub (c # cs) k)) \<longleftrightarrow> i = j"
    proof
      assume a: "i \<le> j \<and> occurs_at sub (c # cs) (j - i) \<and> (\<forall>k < j - i. \<not> occurs_at sub (c # cs) k)"
      have "occurs_at sub (c # cs) 0" using True by (simp add: occurs_at_0)
      with a have "\<not> 0 < j - i" by blast
      with a show "i = j" by simp
    next
      assume "i = j"
      with True show "i \<le> j \<and> occurs_at sub (c # cs) (j - i) \<and> (\<forall>k < j - i. \<not> occurs_at sub (c # cs) k)"
        by (simp add: occurs_at_0)
    qed
    with True show ?thesis by (simp only: find_from.simps if_True) auto
  next
    case False
    have "(i \<le> j \<and> occurs_at sub (c # cs) (j - i) \<and> (\<forall>k < j - i. \<not> occurs_at sub (c # cs) k))
      \<longleftrightarrow> (Suc i \<le> j \<and> occurs_at sub cs (j - Suc i) \<and> (\<forall>k < j - Suc i. \<not> occurs_at sub cs k))"
      (is "?L \<longleftrightarrow> ?R")
    proof
      assume l: ?L
      from l False have ne: "j - i \<noteq> 0" by (auto simp: occurs_at_0 intro: ccontr)
      then obtain m where m: "j - i = Suc m" by (cases "j - i") auto
      then have jm: "j - Suc i = m" by simp
      have "\<forall>k < m. \<not> occurs_at sub cs k"
      proof (intro allI impI)
        fix k assume "k < m"
        then have "Suc k < j - i" using m by simp
        with l have "\<not> occurs_at sub (c # cs) (Suc k)" by blast
        then show "\<not> occurs_at sub cs k" by (simp add: occurs_at_Suc)
      qed
      with l m jm show ?R by (auto simp: occurs_at_Suc)
    next
      assume r: ?R
      then have "Suc i \<le> j" by blast
      then have ji: "j - i = Suc (j - Suc i)" by arith
      have "\<forall>k < j - i. \<not> occurs_at sub (c # cs) k"
      proof (intro allI impI)
        fix k assume k: "k < j - i"
        show "\<not> occurs_at sub (c # cs) k"
        proof (cases k)
          case 0 with False show ?thesis by (simp add: occurs_at_0)
        next
          case (Suc k')
          with k ji have "k' < j - Suc i" by simp
          with r Suc show ?thesis by (simp add: occurs_at_Suc)
        qed
      qed
      with r ji show ?L by (simp add: occurs_at_Suc)
    qed
    with False Cons.IH [of "Suc i"] show ?thesis by simp
  qed
qed

lemma occurs_at_drop:
  "start \<le> length s \<Longrightarrow> occurs_at sub (drop start s) k \<longleftrightarrow> occurs_at sub s (start + k)"
  by (auto simp: occurs_at_def add.commute)

lemma str_index_Inr:
  "str_index s sub start = Inr j \<longleftrightarrow>
     start \<le> j \<and> occurs_at sub s j \<and> (\<forall>k. start \<le> k \<and> k < j \<longrightarrow> \<not> occurs_at sub s k)"
  (is "?L \<longleftrightarrow> ?R")
proof (cases "length s < start")
  case True
  have "\<not> ?R" using True by (auto simp: occurs_at_def)
  with True show ?thesis by (simp add: str_index_def)
next
  case False
  then have le: "start \<le> length s" by simp
  have "?L \<longleftrightarrow> find_from sub (drop start s) start = Some j"
    using False by (auto simp: str_index_def split: option.splits)
  also have "\<dots> \<longleftrightarrow> start \<le> j \<and> occurs_at sub s (start + (j - start))
      \<and> (\<forall>k < j - start. \<not> occurs_at sub s (start + k))"
    by (simp add: find_from_Some occurs_at_drop [OF le])
  also have "\<dots> \<longleftrightarrow> ?R"
  proof
    assume a: "start \<le> j \<and> occurs_at sub s (start + (j - start))
      \<and> (\<forall>k < j - start. \<not> occurs_at sub s (start + k))"
    have "\<forall>k. start \<le> k \<and> k < j \<longrightarrow> \<not> occurs_at sub s k"
    proof (intro allI impI)
      fix k assume k: "start \<le> k \<and> k < j"
      then have "k - start < j - start" by arith
      with a have "\<not> occurs_at sub s (start + (k - start))" by blast
      with k show "\<not> occurs_at sub s k" by simp
    qed
    moreover from a have sj: "start \<le> j" by blast
    moreover from sj have "start + (j - start) = j" by arith
    moreover from a have "occurs_at sub s (start + (j - start))" by blast
    ultimately show ?R by simp
  next
    assume r: ?R
    have "\<forall>k < j - start. \<not> occurs_at sub s (start + k)"
    proof (intro allI impI)
      fix k assume "k < j - start"
      then have "start \<le> start + k \<and> start + k < j" by arith
      with r show "\<not> occurs_at sub s (start + k)" by blast
    qed
    with r show "start \<le> j \<and> occurs_at sub s (start + (j - start))
      \<and> (\<forall>k < j - start. \<not> occurs_at sub s (start + k))" by simp
  qed
  finally show ?thesis .
qed

lemma str_index_cases:
  "str_index s sub start = Inl ValueError \<or> (\<exists>j. str_index s sub start = Inr j)"
  by (simp add: str_index_def split: option.splits)

lemma str_index_Inl:
  "str_index s sub start = Inl e \<longleftrightarrow>
     e = ValueError \<and> (\<forall>k. start \<le> k \<longrightarrow> \<not> occurs_at sub s k)"
  (is "?L \<longleftrightarrow> ?R")
proof
  assume l: ?L
  have e: "e = ValueError" using l str_index_cases [of s sub start] by (cases e) auto
  have "\<not> occurs_at sub s k" if k: "start \<le> k" for k
  proof
    assume o: "occurs_at sub s k"
    define P where "P = (\<lambda>m. start \<le> m \<and> occurs_at sub s m)"
    have "P k" using k o by (simp add: P_def)
    then have 1: "P (Least P)" by (rule LeastI)
    have 2: "\<not> P m" if "m < Least P" for m using that by (rule not_less_Least)
    have "start \<le> Least P \<and> occurs_at sub s (Least P) \<and>
       (\<forall>m. start \<le> m \<and> m < Least P \<longrightarrow> \<not> occurs_at sub s m)"
      using 1 2 unfolding P_def by blast
    then have "str_index s sub start = Inr (Least P)"
      by (simp add: str_index_Inr)
    with l show False by simp
  qed
  with e show ?R by simp
next
  assume r: ?R
  have "str_index s sub start \<noteq> Inr j" for j
  proof
    assume "str_index s sub start = Inr j"
    then have "start \<le> j \<and> occurs_at sub s j" by (simp only: str_index_Inr)
    with r show False by blast
  qed
  with r show ?L using str_index_cases [of s sub start] by auto
qed


section \<open>The marker-bounded rewrite\<close>

lemma str_index_first: "str_index s sub start = Inr j \<longleftrightarrow> first_occurrence sub s start j"
  by (simp add: str_index_Inr first_occurrence_def Ball_def)

lemma first_occurrence_exists:
  assumes "occurs_at sub s k" and "start \<le> k"
  shows "\<exists>j. first_occurrence sub s start j"
proof -
  have "str_index s sub start \<noteq> Inl ValueError"
    using assms by (auto simp: str_index_Inl)
  then show ?thesis
    using str_index_cases [of s sub start] by (auto simp: str_index_first)
qed

lemma rewrite_block_Inr:
  assumes "first_occurrence START txt 0 i" and "first_occurrence END txt i j"
  shows "rewrite_block START END block txt = Inr (take i txt @ block @ drop j txt)"
proof -
  have "str_index txt START 0 = Inr i" using assms(1) by (simp add: str_index_first)
  moreover have "str_index txt END i = Inr j" using assms(2) by (simp add: str_index_first)
  ultimately show ?thesis by (simp add: rewrite_block_def)
qed

lemma rewrite_block_Inl:
  assumes "(\<forall>k. \<not> occurs_at START txt k) \<or>
           (\<exists>i. first_occurrence START txt 0 i \<and> (\<forall>k\<ge>i. \<not> occurs_at END txt k))"
  shows "rewrite_block START END block txt = Inl ValueError"
  using assms
proof
  assume "\<forall>k. \<not> occurs_at START txt k"
  then have "str_index txt START 0 = Inl ValueError" by (simp add: str_index_Inl)
  then show ?thesis by (simp add: rewrite_block_def)
next
  assume "\<exists>i. first_occurrence START txt 0 i \<and> (\<forall>k\<ge>i. \<not> occurs_at END txt k)"
  then obtain i where i: "first_occurrence START txt 0 i" and e: "\<forall>k\<ge>i. \<not> occurs_at END txt k"
    by blast
  have "str_index txt START 0 = Inr i" using i by (simp add: str_index_first)
  moreover have "str_index txt END i = Inl ValueError" using e by (simp add: str_index_Inl)
  ultimately show ?thesis by (simp add: rewrite_block_def)
qed

text \<open>
  C1. When the start marker occurs in the file, first at offset \<open>i\<close>, and the end marker
  occurs at or after \<open>i\<close>, first at offset \<open>j\<close>, the script writes back the text
  before \<open>i\<close>, then the replacement block, then the text from \<open>j\<close> on, so the end
  marker stays; it reports the rewrite and raises nothing.
\<close>

theorem fix_translate_block_splices:
  assumes "files w translations_ts = Some txt"
    and "first_occurrence start_marker txt 0 i"
    and "first_occurrence end_marker txt i j"
  shows "fix_translate_block w =
           (Inr (), w\<lparr>files := (files w)(translations_ts \<mapsto> take i txt @ new_block @ drop j txt),
                       console := console w @ [''translate block rewritten'']\<rparr>)"
  using assms(1) rewrite_block_Inr [OF assms(2,3), of new_block]
  by (simp add: fix_translate_block_def read_text_def write_text_def print_def)

lemma demo_start: "str_index demo_ts start_marker 0 = Inr 5"
  by (simp add: str_index_def demo_ts_def start_marker_def cps_def)

lemma demo_end: "str_index demo_ts end_marker 5 = Inr 37"
  by (simp add: str_index_def demo_ts_def end_marker_def cps_def)

lemma swapped_start: "str_index swapped_ts start_marker 0 = Inr 41"
  by (simp add: str_index_def swapped_ts_def start_marker_def cps_def)

lemma swapped_end: "str_index swapped_ts end_marker 41 = Inl ValueError"
  by (simp add: str_index_def swapped_ts_def end_marker_def cps_def)

lemma demo_first_start: "first_occurrence start_marker demo_ts 0 5"
  using demo_start by (simp only: str_index_first)

lemma demo_first_end: "first_occurrence end_marker demo_ts 5 37"
  using demo_end by (simp only: str_index_first)

lemma demo_take: "take 5 demo_ts = cps ''// x\<newline>''"
  by (simp add: demo_ts_def cps_def)

lemma demo_drop: "drop 37 demo_ts = cps ''export function registerTranslation() {}\<newline>''"
  by (simp add: demo_ts_def cps_def)

lemma demo_run:
  "fix_translate_block demo_world =
     (Inr (), \<lparr>files = [translations_ts \<mapsto>
                  cps ''// x\<newline>'' @ new_block @ cps ''export function registerTranslation() {}\<newline>''],
               console = [''translate block rewritten'']\<rparr>)"
  using rewrite_block_Inr [OF demo_first_start demo_first_end, of new_block]
  by (simp add: fix_translate_block_def read_text_def write_text_def print_def demo_world_def
      demo_take demo_drop)

theorem fix_translate_block_splices_witness:
  "fix_translate_block demo_world =
     (Inr (), \<lparr>files = [translations_ts \<mapsto>
                  cps ''// x\<newline>'' @ new_block @ cps ''export function registerTranslation() {}\<newline>''],
               console = [''translate block rewritten'']\<rparr>)"
proof -
  have 1: "files demo_world translations_ts = Some demo_ts" by (simp add: demo_world_def)
  show ?thesis
    using fix_translate_block_splices [OF 1 demo_first_start demo_first_end]
    by (simp add: demo_take demo_drop demo_world_def)
qed

text \<open>
  C2. When the start marker is absent, or the end marker does not occur at or after the
  first start marker, the script ends in the \<open>ValueError\<close> of \<open>str.index\<close>, and
  the files and the console are as they were: nothing is written before both markers
  are found.
\<close>

theorem fix_translate_block_fails:
  assumes "files w translations_ts = Some txt"
    and "(\<forall>k. \<not> occurs_at start_marker txt k) \<or>
         (\<exists>i. first_occurrence start_marker txt 0 i \<and> (\<forall>k\<ge>i. \<not> occurs_at end_marker txt k))"
  shows "fix_translate_block w = (Inl ValueError, w)"
  using assms(1) rewrite_block_Inl [OF assms(2), of new_block]
  by (simp add: fix_translate_block_def read_text_def)

theorem fix_translate_block_fails_witness:
  "fix_translate_block swapped_world = (Inl ValueError, swapped_world)"
proof -
  have 1: "files swapped_world translations_ts = Some swapped_ts"
    by (simp add: swapped_world_def)
  have 2: "first_occurrence start_marker swapped_ts 0 41"
    using swapped_start by (simp only: str_index_first)
  have 3: "\<forall>k\<ge>41. \<not> occurs_at end_marker swapped_ts k"
    using swapped_end by (simp only: str_index_Inl) simp
  have "(\<forall>k. \<not> occurs_at start_marker swapped_ts k) \<or>
        (\<exists>i. first_occurrence start_marker swapped_ts 0 i \<and>
             (\<forall>k\<ge>i. \<not> occurs_at end_marker swapped_ts k))"
    using 2 3 by blast
  then show ?thesis using fix_translate_block_fails [OF 1] by simp
qed

text \<open>
  C3, as the code has it. With the markers \<open>start\<close> and \<open>end\<close> and the replacement
  \<open>NEW\<close>, the text \<open>A start X middle end B\<close> becomes \<open>A NEWend B\<close>: the
  replacement takes the place of everything from the start marker up to the end marker,
  the blank before \<open>end\<close> included, and the scenario's \<open>A NEW end B\<close> is not the
  result.
\<close>

theorem splice_scenario:
  "rewrite_block ''start'' ''end'' ''NEW'' ''A start X middle end B'' = Inr ''A NEWend B''"
  by (simp add: rewrite_block_def str_index_def)

theorem splice_scenario_counterexample:
  "rewrite_block ''start'' ''end'' ''NEW'' ''A start X middle end B'' \<noteq> Inr ''A NEW end B''"
  by (simp add: rewrite_block_def str_index_def)


section \<open>Running the rewrite twice\<close>

lemma occurs_at_append_left:
  "k + length sub \<le> length a \<Longrightarrow> occurs_at sub (a @ b) k \<longleftrightarrow> occurs_at sub a k"
  by (simp add: occurs_at_def)

lemma occurs_at_append_right:
  "length a \<le> k \<Longrightarrow> occurs_at sub (a @ b) k \<longleftrightarrow> occurs_at sub b (k - length a)"
  by (auto simp: occurs_at_def)

lemma occurs_at_straddle:
  assumes "occurs_at sub (a @ b) k" and "k \<le> length a"
  shows "occurs_at sub a k \<or> (\<exists>us. us \<noteq> [] \<and> sub = drop k a @ us \<and> prefix us b)"
proof -
  from assms have "prefix sub (drop k a @ b)" by (simp add: occurs_at_prefix)
  then have "prefix sub (drop k a) \<or> (\<exists>us. sub = drop k a @ us \<and> prefix us b)"
    by (simp add: prefix_append)
  then show ?thesis
  proof
    assume "prefix sub (drop k a)"
    with assms(2) show ?thesis by (simp add: occurs_at_prefix)
  next
    assume "\<exists>us. sub = drop k a @ us \<and> prefix us b"
    then obtain us where us: "sub = drop k a @ us" "prefix us b" by blast
    show ?thesis
    proof (cases "us = []")
      case True
      with us assms(2) have "occurs_at sub a k" by (simp add: occurs_at_prefix)
      then show ?thesis ..
    next
      case False
      with us show ?thesis by blast
    qed
  qed
qed

lemma str_contains_iff: "str_contains sub s \<longleftrightarrow> (\<exists>k. occurs_at sub s k)"
  by (simp add: str_contains_def find_from_None)

lemma occurs_at_unlines:
  assumes "10 \<notin> set sub" and "sub \<noteq> []" and "occurs_at sub (unlines ls) k"
  shows "\<exists>l \<in> set ls. str_contains sub l"
  using assms(3)
proof (induction ls arbitrary: k)
  case Nil
  then have "sub = []" by (simp add: unlines_def occurs_at_Nil)
  with assms(2) show ?case by simp
next
  case (Cons l ls)
  have u: "unlines (l # ls) = (l @ [10]) @ unlines ls" by (simp add: unlines_def)
  show ?case
  proof (cases "length (l @ [10]) \<le> k")
    case True
    with Cons.prems have "occurs_at sub (unlines ls) (k - length (l @ [10]))"
      unfolding u by (simp only: occurs_at_append_right)
    then show ?thesis using Cons.IH by auto
  next
    case False
    then have kl: "k \<le> length l" by simp
    have "occurs_at sub (l @ (10 # unlines ls)) k" using Cons.prems by (simp add: u)
    from occurs_at_straddle [OF this kl]
    show ?thesis
    proof
      assume "occurs_at sub l k"
      then show ?thesis by (auto simp: str_contains_iff)
    next
      assume "\<exists>us. us \<noteq> [] \<and> sub = drop k l @ us \<and> prefix us (10 # unlines ls)"
      then obtain us where us: "us \<noteq> []" "sub = drop k l @ us" "prefix us (10 # unlines ls)"
        by blast
      then have "hd us = 10" by (cases us) auto
      with us have "10 \<in> set sub" by (cases us) auto
      with assms(1) show ?thesis by simp
    qed
  qed
qed

lemma no_occurrence_unlines:
  assumes "10 \<notin> set sub" and "sub \<noteq> []" and "list_all (\<lambda>l. \<not> str_contains sub l) ls"
  shows "\<not> occurs_at sub (unlines ls) k"
proof
  assume "occurs_at sub (unlines ls) k"
  from occurs_at_unlines [OF assms(1,2) this] assms(3) show False
    by (auto simp: list_all_iff)
qed

lemma new_block_no_end: "\<not> occurs_at end_marker new_block k"
  unfolding new_block_def
  by (rule no_occurrence_unlines) (simp_all add: str_contains_def end_marker_def cps_def)

lemma new_block_start: "prefix start_marker new_block"
  by (simp add: new_block_def unlines_def start_marker_def cps_def)

lemma unlines_last: "ls \<noteq> [] \<Longrightarrow> unlines ls \<noteq> [] \<and> last (unlines ls) = 10"
  by (induction ls) (auto simp: unlines_def)

lemma new_block_last: "new_block \<noteq> [] \<and> last new_block \<notin> set end_marker"
proof -
  have "new_block \<noteq> [] \<and> last new_block = 10"
    unfolding new_block_def by (rule unlines_last) simp
  moreover have "10 \<notin> set end_marker" by (simp add: end_marker_def cps_def)
  ultimately show ?thesis by simp
qed

lemma rewrite_block_cases:
  assumes "rewrite_block START END block txt = Inr r"
  obtains i j where "first_occurrence START txt 0 i" and "first_occurrence END txt i j"
    and "r = take i txt @ block @ drop j txt"
  using assms
  by (auto simp: rewrite_block_def str_index_first split: sum.splits)

lemma rewrite_block_idem:
  assumes SB: "prefix S B" and Bne: "B \<noteq> []" and lastB: "last B \<notin> set E"
    and EB: "\<forall>k. \<not> occurs_at E B k"
    and r: "rewrite_block S E B txt = Inr r"
  shows "rewrite_block S E B r = Inr r"
proof -
  from r obtain i j where fs: "first_occurrence S txt 0 i" and fe: "first_occurrence E txt i j"
    and r_eq: "r = take i txt @ B @ drop j txt"
    by (rule rewrite_block_cases)
  from fs have Si: "occurs_at S txt i" and Sfirst: "\<forall>k<i. \<not> occurs_at S txt k"
    by (auto simp: first_occurrence_def)
  from fe have ij: "i \<le> j" and Ej: "occurs_at E txt j"
    by (auto simp: first_occurrence_def)
  from Si have i_le: "i \<le> length txt" by (simp add: occurs_at_def)
  then have len_pre: "length (take i txt) = i" by simp
  from SB obtain B' where B': "B = S @ B'" by (auto simp: prefix_def)
  from Si have "prefix S (drop i txt)" by (simp add: occurs_at_prefix)
  then obtain t2 where t2: "drop i txt = S @ t2" by (auto simp: prefix_def)
  have txt_eq: "txt = (take i txt @ S) @ t2"
    using t2 by (metis append.assoc append_take_drop_id)
  have r_eq2: "r = (take i txt @ S) @ (B' @ drop j txt)"
    by (simp add: r_eq B')
  have drop_i: "drop i r = B @ drop j txt"
    using len_pre by (simp add: r_eq)
  have i_le_r: "i \<le> length r" using len_pre by (simp add: r_eq)
  \<comment> \<open>the start marker is found where it was\<close>
  have "occurs_at S r i"
    using i_le_r SB by (simp add: occurs_at_prefix drop_i)
  moreover have "\<not> occurs_at S r k" if "k < i" for k
  proof
    assume o: "occurs_at S r k"
    have "k + length S \<le> length (take i txt @ S)" using that len_pre by simp
    then have "occurs_at S ((take i txt @ S) @ (B' @ drop j txt)) k
        = occurs_at S ((take i txt @ S) @ t2) k"
      by (simp only: occurs_at_append_left)
    with o have "occurs_at S txt k" using r_eq2 txt_eq by metis
    with Sfirst that show False by blast
  qed
  ultimately have fs': "first_occurrence S r 0 i"
    by (simp add: first_occurrence_def)
  \<comment> \<open>the end marker is found right after the block\<close>
  have drop_end: "drop (i + length B) r = drop j txt"
    using len_pre by (simp add: r_eq)
  have "occurs_at E r (i + length B)"
  proof -
    from Ej have "prefix E (drop j txt)" by (simp add: occurs_at_prefix)
    moreover have "i + length B \<le> length r" using len_pre by (simp add: r_eq)
    ultimately show ?thesis by (simp add: occurs_at_prefix drop_end)
  qed
  moreover have "\<not> occurs_at E r k" if k: "k \<in> {i..<i + length B}" for k
  proof
    assume o: "occurs_at E r k"
    define m where "m = k - i"
    from k have m: "m < length B" and km: "k = length (take i txt) + m"
      using len_pre by (auto simp: m_def)
    from o have "occurs_at E (take i txt @ (B @ drop j txt)) k" by (simp add: r_eq)
    then have "occurs_at E (B @ drop j txt) m"
      using km by (simp add: occurs_at_append_right)
    with m have "occurs_at E B m \<or> (\<exists>us. us \<noteq> [] \<and> E = drop m B @ us \<and> prefix us (drop j txt))"
      by (intro occurs_at_straddle) simp_all
    then show False
    proof
      assume "occurs_at E B m"
      with EB show False by blast
    next
      assume "\<exists>us. us \<noteq> [] \<and> E = drop m B @ us \<and> prefix us (drop j txt)"
      then obtain us where E_eq: "E = drop m B @ us" by blast
      from m have "drop m B \<noteq> []" by simp
      then have "last (drop m B) \<in> set (drop m B)" by (rule last_in_set)
      moreover from m have "last (drop m B) = last B" by simp
      ultimately have "last B \<in> set E" by (simp add: E_eq)
      with lastB show False by blast
    qed
  qed
  ultimately have fe': "first_occurrence E r i (i + length B)"
    by (simp add: first_occurrence_def)
  have take_i: "take i r = take i txt" using len_pre by (simp add: r_eq)
  have "rewrite_block S E B r = Inr (take i r @ B @ drop (i + length B) r)"
    using fs' fe' by (rule rewrite_block_Inr)
  also have "take i r @ B @ drop (i + length B) r = r"
    unfolding take_i drop_end by (simp only: r_eq)
  finally show ?thesis .
qed

text \<open>
  C10. The block starts with the start marker, its last character (a line feed) is not
  in the end marker, and the end marker does not occur in it. So when a run succeeds, a
  second run finds the start marker at the same offset and the end marker right after
  the block, and writes the same text again: the file after two runs is the file after
  one.
\<close>

theorem fix_translate_block_idempotent:
  assumes "fix_translate_block w = (Inr (), w1)"
  shows "\<exists>w2. fix_translate_block w1 = (Inr (), w2) \<and> files w2 = files w1"
proof -
  from assms obtain t r where t: "files w translations_ts = Some t"
    and r: "rewrite_block start_marker end_marker new_block t = Inr r"
    and w1: "w1 = print (write_text w translations_ts r) ''translate block rewritten''"
    by (auto simp: fix_translate_block_def read_text_def split: option.splits sum.splits)
  have "rewrite_block start_marker end_marker new_block r = Inr r"
    using new_block_start new_block_last new_block_no_end r
    by (intro rewrite_block_idem [of _ _ _ t]) simp_all
  moreover have "files w1 translations_ts = Some r"
    by (simp add: w1 print_def write_text_def)
  ultimately have "fix_translate_block w1 =
      (Inr (), print (write_text w1 translations_ts r) ''translate block rewritten'')"
    by (simp add: fix_translate_block_def read_text_def)
  moreover have "files (print (write_text w1 translations_ts r) ''translate block rewritten'') = files w1"
    by (simp add: w1 print_def write_text_def)
  ultimately show ?thesis by blast
qed

theorem fix_translate_block_idempotent_witness:
  "\<exists>w1 w2. fix_translate_block demo_world = (Inr (), w1)
     \<and> fix_translate_block w1 = (Inr (), w2) \<and> files w2 = files w1
     \<and> files w1 translations_ts =
         Some (cps ''// x\<newline>'' @ new_block @ cps ''export function registerTranslation() {}\<newline>'')"
proof -
  let ?w1 = "\<lparr>files = [translations_ts \<mapsto>
                  cps ''// x\<newline>'' @ new_block @ cps ''export function registerTranslation() {}\<newline>''],
               console = [''translate block rewritten'']\<rparr>"
  have 1: "fix_translate_block demo_world = (Inr (), ?w1)"
    by (rule demo_run)
  from fix_translate_block_idempotent [OF 1] 1 show ?thesis by auto
qed


section \<open>The header splice\<close>

lemma index_of_Some:
  "index_of x ls = Some i \<longleftrightarrow> i < length ls \<and> ls ! i = x \<and> (\<forall>k<i. ls ! k \<noteq> x)"
proof (induction ls arbitrary: i)
  case Nil
  show ?case by simp
next
  case (Cons y ys)
  show ?case
  proof (cases "y = x")
    case True
    then show ?thesis by (cases i) auto
  next
    case False
    show ?thesis
    proof (cases i)
      case 0
      with False show ?thesis by simp
    next
      case (Suc m)
      have "(\<forall>k<Suc m. (y # ys) ! k \<noteq> x) \<longleftrightarrow> (\<forall>k<m. ys ! k \<noteq> x)"
        using False by (auto simp: less_Suc_eq_0_disj)
      with False Suc Cons.IH [of m] show ?thesis by auto
    qed
  qed
qed

lemma index_of_None: "index_of x ls = None \<longleftrightarrow> x \<notin> set ls"
  by (induction ls) auto

lemma list_index_Inr: "list_index ls x = Inr i \<longleftrightarrow> first_index x ls i"
proof (cases "index_of x ls")
  case None
  then have "x \<notin> set ls" by (simp add: index_of_None)
  then have "\<not> first_index x ls i" by (auto simp: first_index_def)
  with None show ?thesis by (simp add: list_index_def)
next
  case (Some m)
  have "first_index x ls i \<longleftrightarrow> index_of x ls = Some i"
    by (simp only: first_index_def index_of_Some)
  with Some show ?thesis by (simp add: list_index_def)
qed

lemma list_index_Inl: "list_index ls x = Inl e \<longleftrightarrow> e = ValueError \<and> x \<notin> set ls"
proof (cases "index_of x ls")
  case None
  then have "x \<notin> set ls" by (simp add: index_of_None)
  with None show ?thesis by (cases e) (simp_all add: list_index_def)
next
  case (Some m)
  then have "index_of x ls \<noteq> None" by simp
  then have "x \<in> set ls" by (simp add: index_of_None)
  with Some show ?thesis by (simp add: list_index_def)
qed

lemma split_on_unlines:
  "\<forall>l \<in> set ls. 10 \<notin> set l \<Longrightarrow> split_on 10 (unlines ls) = ls @ [[]]"
proof (induction ls)
  case Nil
  show ?case by (simp add: unlines_def)
next
  case (Cons l ls)
  then have ih: "split_on 10 (unlines ls) = ls @ [[]]" by simp
  have "10 \<notin> set l \<Longrightarrow> split_on 10 (l @ 10 # unlines ls) = l # split_on 10 (unlines ls)"
  proof (induction l)
    case Nil
    show ?case by simp
  next
    case (Cons c cs)
    then show ?case by simp
  qed
  with Cons.prems ih show ?case by (simp add: unlines_def)
qed

lemma new_header_lines:
  "new_header =
    [cps ''import React, { useEffect, useMemo, useState } from 'react';'',
     cps ''import * as ImagePicker from 'expo-image-picker';'',
     cps ''import { Alert, KeyboardAvoidingView, Modal, Platform, ScrollView, StyleSheet, Text, TextInput, TouchableOpacity, View, Image } from 'react-native';'',
     []]"
  unfolding new_header_def header_text_def
  by (subst split_on_unlines) (simp_all add: cps_def)

lemma marker_not_in_header: "import_marker \<notin> set new_header"
  by (simp add: new_header_lines import_marker_def cps_def)


lemma splitlines_from_line:
  "\<forall>c \<in> set l. \<not> line_boundary c \<Longrightarrow>
     splitlines_from cur l = (if cur @ l = [] then [] else [cur @ l])"
proof (induction cur l rule: splitlines_from.induct)
  case (1 cur)
  show ?case by simp
next
  case (2 cur c)
  then show ?case by simp
next
  case (3 cur c d cs)
  from "3.prems" have c: "\<not> line_boundary c" by simp
  then have c13: "c \<noteq> 0x0D" by (auto simp: line_boundary_def)
  from "3.prems" have "\<forall>c \<in> set (d # cs). \<not> line_boundary c" by simp
  with "3.IH"(3) c c13 have "splitlines_from (cur @ [c]) (d # cs) =
       (if (cur @ [c]) @ d # cs = [] then [] else [(cur @ [c]) @ d # cs])"
    by blast
  with c c13 show ?case by simp
qed

lemma splitlines_from_feed:
  "\<forall>c \<in> set l. \<not> line_boundary c \<Longrightarrow>
     splitlines_from cur (l @ 10 # s) = (cur @ l) # splitlines_from [] s"
proof (induction l arbitrary: cur)
  case Nil
  have "line_boundary 10" by (simp add: line_boundary_def)
  then show ?case by (cases s) simp_all
next
  case (Cons c cs)
  from Cons.prems have c: "\<not> line_boundary c" by simp
  then have c13: "c \<noteq> 0x0D" by (auto simp: line_boundary_def)
  obtain d ds where d: "cs @ 10 # s = d # ds" by (cases "cs @ 10 # s") auto
  have "splitlines_from cur (c # d # ds) = splitlines_from (cur @ [c]) (d # ds)"
    using c c13 by simp
  also have "\<dots> = ((cur @ [c]) @ cs) # splitlines_from [] s"
    using Cons.IH [of "cur @ [c]"] Cons.prems by (simp add: d [symmetric])
  finally show ?case by (simp add: d)
qed

lemma splitlines_join:
  "\<forall>l \<in> set ls. \<forall>c \<in> set l. \<not> line_boundary c \<Longrightarrow>
     splitlines (join [10] ls) = (if ls \<noteq> [] \<and> last ls = [] then butlast ls else ls)"
proof (induction "[10::nat]" ls rule: join.induct)
  case 1
  show ?case by (simp add: splitlines_def)
next
  case (2 l)
  then show ?case by (simp add: splitlines_def splitlines_from_line)
next
  case (3 l m ls)
  from "3.prems" have l: "\<forall>c \<in> set l. \<not> line_boundary c" by simp
  from "3.prems" have "\<forall>l \<in> set (m # ls). \<forall>c \<in> set l. \<not> line_boundary c" by simp
  with "3.hyps" have ih: "splitlines (join [10] (m # ls)) =
      (if last (m # ls) = [] then butlast (m # ls) else m # ls)" by simp
  have "splitlines (join [10] (l # m # ls)) = l # splitlines (join [10] (m # ls))"
    using splitlines_from_feed [OF l, of "[]"] by (simp add: splitlines_def)
  with ih show ?case by simp
qed

lemma splitlines_from_no_boundary:
  "\<forall>c \<in> set cur. \<not> line_boundary c \<Longrightarrow>
     \<forall>l \<in> set (splitlines_from cur s). \<forall>c \<in> set l. \<not> line_boundary c"
proof (induction cur s rule: splitlines_from.induct)
  case (1 cur)
  then show ?case by simp
next
  case (2 cur c)
  then show ?case by simp
next
  case (3 cur c d cs)
  show ?case
  proof (cases "c = 0x0D \<and> d = 0x0A")
    case True
    then have "splitlines_from cur (c # d # cs) = cur # splitlines_from [] cs" by simp
    with True "3.IH"(1) "3.prems" show ?thesis by simp
  next
    case False
    note nf = this
    show ?thesis
    proof (cases "line_boundary c")
      case True
      with nf have "splitlines_from cur (c # d # cs) = cur # splitlines_from [] (d # cs)"
        by auto
      with nf True "3.IH"(2) "3.prems" show ?thesis by simp
    next
      case False
      with "3.prems" have "\<forall>c \<in> set (cur @ [c]). \<not> line_boundary c" by simp
      with nf False "3.IH"(3) have
        "\<forall>l \<in> set (splitlines_from (cur @ [c]) (d # cs)). \<forall>c \<in> set l. \<not> line_boundary c"
        by blast
      moreover from nf False have
        "splitlines_from cur (c # d # cs) = splitlines_from (cur @ [c]) (d # cs)" by auto
      ultimately show ?thesis by simp
    qed
  qed
qed

lemma splitlines_no_boundary:
  "\<forall>l \<in> set (splitlines s). \<forall>c \<in> set l. \<not> line_boundary c"
  unfolding splitlines_def by (rule splitlines_from_no_boundary) simp

lemma set_splitlines_join:
  assumes "\<forall>l \<in> set ls. \<forall>c \<in> set l. \<not> line_boundary c"
  shows "set (splitlines (join [10] ls)) \<subseteq> set ls"
  using splitlines_join [OF assms] by (auto dest: in_set_butlastD)

lemma once_not_later:
  assumes "count_list ls x = 1" and "first_index x ls i"
  shows "x \<notin> set (drop (Suc i) ls)"
proof -
  from assms(2) have i: "i < length ls" and x: "ls ! i = x" by (auto simp: first_index_def)
  from i have "ls = take i ls @ ls ! i # drop (Suc i) ls" by (rule id_take_nth_drop)
  moreover have "count_list (take i ls @ ls ! i # drop (Suc i) ls) x
      = count_list (take i ls) x + Suc (count_list (drop (Suc i) ls) x)"
    using x by (simp add: count_list_append)
  ultimately have "count_list ls x = count_list (take i ls) x + Suc (count_list (drop (Suc i) ls) x)"
    by simp
  with assms(1) have "count_list (drop (Suc i) ls) x = 0" by simp
  then show ?thesis by (simp add: count_list_0_iff)
qed

lemma printable_no_boundary: "32 \<le> c \<Longrightarrow> c < 127 \<Longrightarrow> \<not> line_boundary c"
  by (auto simp: line_boundary_def)

lemma new_header_printable: "\<forall>l \<in> set new_header. \<forall>c \<in> set l. 32 \<le> c \<and> c < 127"
  by (simp add: new_header_lines cps_def)

lemma new_header_no_boundary: "\<forall>l \<in> set new_header. \<forall>c \<in> set l. \<not> line_boundary c"
  using new_header_printable printable_no_boundary by blast


lemma header_splice_Inr:
  "first_index import_marker lines i \<Longrightarrow>
     header_splice lines = Inr (new_header @ drop (Suc i) lines)"
  by (simp add: header_splice_def list_index_Inr [symmetric])

lemma header_splice_Inl:
  "import_marker \<notin> set lines \<Longrightarrow> header_splice lines = Inl ValueError"
  using list_index_Inl [of lines import_marker ValueError] by (simp add: header_splice_def)

lemma fix_vendor_ok:
  assumes "files w vendor_account_tsx = Some t"
    and "first_index import_marker (splitlines t) i"
  shows "fix_vendor w =
    (Inr (), w\<lparr>files := (files w)(vendor_account_tsx \<mapsto>
                    join [10] (new_header @ drop (Suc i) (splitlines t))),
                console := console w @ [''rewrote header'']\<rparr>)"
  using assms(1) header_splice_Inr [OF assms(2)]
  by (simp add: fix_vendor_def read_text_def write_text_def print_def)

lemma fix_vendor_fail:
  assumes "files w vendor_account_tsx = Some t"
    and "import_marker \<notin> set (splitlines t)"
  shows "fix_vendor w = (Inl ValueError, w)"
  using assms(1) header_splice_Inl [OF assms(2)]
  by (simp add: fix_vendor_def read_text_def)

lemma first_index_exists: "x \<in> set ls \<Longrightarrow> \<exists>i. first_index x ls i"
  using list_index_Inl [of ls x ValueError] list_index_Inr [of ls x]
  by (cases "list_index ls x") (auto simp: list_index_def split: option.splits)

lemma patched_lines_subset:
  "set (splitlines (join [10] (new_header @ drop n (splitlines t))))
     \<subseteq> set new_header \<union> set (drop n (splitlines t))"
proof -
  have "\<forall>l \<in> set (drop n (splitlines t)). \<forall>c \<in> set l. \<not> line_boundary c"
    using splitlines_no_boundary [of t] by (meson in_set_dropD)
  with new_header_no_boundary
  have "\<forall>l \<in> set (new_header @ drop n (splitlines t)). \<forall>c \<in> set l. \<not> line_boundary c"
    by auto
  from set_splitlines_join [OF this] show ?thesis by simp
qed

lemma two_markers_first: "first_index import_marker two_markers 0"
  by (simp add: first_index_def two_markers_def import_marker_def)

text \<open>
  C4, as the code has it. The script calls \<open>lines.index\<close> once, so it is the first
  line equal to the marker that counts: with that line at position \<open>i\<close> the result is
  the replacement header (its three import lines and the empty string that ends the
  split literal) followed by \<open>lines[i+1:]\<close>. The lines after \<open>i\<close> are kept in order,
  a second marker line among them.
\<close>

theorem header_splice_first_marker:
  assumes "first_index import_marker lines i"
  shows "header_splice lines = Inr (new_header @ drop (i + 1) lines)
    \<and> new_header =
        [cps ''import React, { useEffect, useMemo, useState } from 'react';'',
         cps ''import * as ImagePicker from 'expo-image-picker';'',
         cps ''import { Alert, KeyboardAvoidingView, Modal, Platform, ScrollView, StyleSheet, Text, TextInput, TouchableOpacity, View, Image } from 'react-native';'',
         []]"
  using header_splice_Inr [OF assms] new_header_lines by simp

theorem header_splice_first_marker_witness:
  "header_splice two_markers = Inr (new_header @ [cps ''x'', cps ''import {'', cps ''y''])"
  using header_splice_first_marker [OF two_markers_first] by (simp add: two_markers_def)

theorem header_splice_second_marker_counterexample:
  "first_index import_marker two_markers 0 \<and> two_markers ! 1 \<noteq> import_marker
     \<and> two_markers ! 2 = import_marker
     \<and> header_splice two_markers \<noteq> Inr (new_header @ drop (2 + 1) two_markers)"
  using header_splice_Inr [OF two_markers_first] two_markers_first
  by (simp add: two_markers_def import_marker_def cps_def)


lemma none_lines:
  "splitlines none_tsx = [cps ''import React from 'react';'', cps ''const a = 1;'']"
  by (simp add: splitlines_def none_tsx_def cps_def line_boundary_def)

lemma once_lines:
  "splitlines once_tsx =
     [cps ''// vendor account'', cps ''import React from 'react';'', cps ''import {'',
      cps ''  View,'',
      cps ''} from 'react-native';'']"
  by (simp add: splitlines_def once_tsx_def cps_def line_boundary_def)

lemma twice_lines:
  "splitlines twice_tsx = [cps ''import {'', cps ''x'', cps ''import {'', cps ''y'']"
  by (simp add: splitlines_def twice_tsx_def cps_def line_boundary_def)

lemma none_count: "count_list (splitlines none_tsx) import_marker = 0"
  by (simp add: none_lines import_marker_def cps_def)

lemma once_count: "count_list (splitlines once_tsx) import_marker = 1"
  by (simp add: once_lines import_marker_def cps_def)

lemma once_first: "first_index import_marker (splitlines once_tsx) 2"
proof -
  have "list_index (splitlines once_tsx) import_marker = Inr 2"
    by (simp add: once_lines list_index_def import_marker_def cps_def)
  then show ?thesis by (simp only: list_index_Inr)
qed

lemma once_run:
  "fix_vendor once_world =
    (Inr (), \<lparr>files = [vendor_account_tsx \<mapsto>
                 join [10] (new_header @ [cps ''  View,'', cps ''} from 'react-native';''])],
              console = [''rewrote header'']\<rparr>)"
proof -
  have "files once_world vendor_account_tsx = Some once_tsx" by (simp add: once_world_def)
  from fix_vendor_ok [OF this once_first] show ?thesis
    by (simp add: once_lines once_world_def)
qed

lemma hd_cps_append: "hd (cps (c # s) @ r) = of_char c"
  by (simp add: cps_def)

lemma join_header_hd: "hd (join [10] (new_header @ ls)) = of_char CHR ''i''"
  by (simp add: new_header_lines hd_cps_append)

text \<open>
  C5, as the code has it. The script has no check of its own on the marker. When no line
  equals the marker, \<open>lines.index\<close> raises its \<open>ValueError\<close>, which nothing catches,
  before anything is written: the files and the console are as they were. When exactly
  one line equals the marker the script does not fail: it writes the header and the
  lines after that marker, and reports the rewrite.
\<close>

theorem fix_vendor_fewer_than_two:
  assumes "files w vendor_account_tsx = Some t"
  shows "(count_list (splitlines t) import_marker = 0 \<longrightarrow>
            fix_vendor w = (Inl ValueError, w))
       \<and> (count_list (splitlines t) import_marker = 1 \<longrightarrow>
            (\<exists>i. first_index import_marker (splitlines t) i \<and>
               fix_vendor w =
                 (Inr (), w\<lparr>files := (files w)(vendor_account_tsx \<mapsto>
                                join [10] (new_header @ drop (i + 1) (splitlines t))),
                             console := console w @ [''rewrote header'']\<rparr>)))"
proof (intro conjI impI)
  assume "count_list (splitlines t) import_marker = 0"
  then have "import_marker \<notin> set (splitlines t)" by (simp add: count_list_0_iff)
  with assms show "fix_vendor w = (Inl ValueError, w)" by (rule fix_vendor_fail)
next
  assume one: "count_list (splitlines t) import_marker = 1"
  have "import_marker \<in> set (splitlines t)"
  proof (rule ccontr)
    assume "import_marker \<notin> set (splitlines t)"
    then have "count_list (splitlines t) import_marker = 0" by (simp add: count_list_0_iff)
    with one show False by simp
  qed
  then have "\<exists>i. first_index import_marker (splitlines t) i" by (rule first_index_exists)
  then obtain i where i: "first_index import_marker (splitlines t) i" ..
  have "fix_vendor w =
                 (Inr (), w\<lparr>files := (files w)(vendor_account_tsx \<mapsto>
                                join [10] (new_header @ drop (i + 1) (splitlines t))),
                             console := console w @ [''rewrote header'']\<rparr>)"
    using fix_vendor_ok [OF assms i] by simp
  with i have "first_index import_marker (splitlines t) i \<and>
               fix_vendor w =
                 (Inr (), w\<lparr>files := (files w)(vendor_account_tsx \<mapsto>
                                join [10] (new_header @ drop (i + 1) (splitlines t))),
                             console := console w @ [''rewrote header'']\<rparr>)" ..
  then show "\<exists>i. first_index import_marker (splitlines t) i \<and>
               fix_vendor w =
                 (Inr (), w\<lparr>files := (files w)(vendor_account_tsx \<mapsto>
                                join [10] (new_header @ drop (i + 1) (splitlines t))),
                             console := console w @ [''rewrote header'']\<rparr>)"
    by (rule exI)
qed

theorem fix_vendor_fewer_than_two_witness:
  "fix_vendor none_world = (Inl ValueError, none_world)"
proof -
  have "files none_world vendor_account_tsx = Some none_tsx" by (simp add: none_world_def)
  from fix_vendor_fewer_than_two [OF this] have
    "count_list (splitlines none_tsx) import_marker = 0 \<longrightarrow>
       fix_vendor none_world = (Inl ValueError, none_world)" by (rule conjunct1)
  with none_count show ?thesis by (rule rev_mp)
qed

theorem fix_vendor_single_marker_counterexample:
  "count_list (splitlines once_tsx) import_marker = 1
     \<and> fst (fix_vendor once_world) = Inr ()
     \<and> files (snd (fix_vendor once_world)) vendor_account_tsx
         \<noteq> files once_world vendor_account_tsx"
proof -
  let ?new = "join [10] (new_header @ [cps ''  View,'', cps ''} from 'react-native';''])"
  have 1: "fst (fix_vendor once_world) = Inr ()" by (simp add: once_run)
  have 2: "files (snd (fix_vendor once_world)) vendor_account_tsx = Some ?new"
    by (simp add: once_run)
  have 3: "files once_world vendor_account_tsx = Some once_tsx" by (simp add: once_world_def)
  have "hd once_tsx = of_char CHR ''/''" by (simp add: once_tsx_def cps_def)
  moreover have "hd ?new = of_char CHR ''i''" by (rule join_header_hd)
  ultimately have "?new \<noteq> once_tsx" by auto
  with once_count 1 2 3 show ?thesis by simp
qed


text \<open>
  C6, as the code has it. When exactly one line of the file equals the marker, the first
  run succeeds and leaves no marker line (the header has none, and the lines kept come
  after the only one), so a second run ends in the \<open>ValueError\<close> of \<open>lines.index\<close>
  and leaves the files and the console as the first run left them.
\<close>

theorem fix_vendor_rerun:
  assumes "files w vendor_account_tsx = Some t"
    and "count_list (splitlines t) import_marker = 1"
  shows "\<exists>w1. fix_vendor w = (Inr (), w1) \<and> fix_vendor w1 = (Inl ValueError, w1)"
proof -
  have "import_marker \<in> set (splitlines t)"
  proof (rule ccontr)
    assume "import_marker \<notin> set (splitlines t)"
    then have "count_list (splitlines t) import_marker = 0" by (simp add: count_list_0_iff)
    with assms(2) show False by simp
  qed
  then have "\<exists>i. first_index import_marker (splitlines t) i" by (rule first_index_exists)
  then obtain i where i: "first_index import_marker (splitlines t) i" ..
  define patched where "patched = join [10] (new_header @ drop (Suc i) (splitlines t))"
  define w1 where "w1 = w\<lparr>files := (files w)(vendor_account_tsx \<mapsto> patched),
                            console := console w @ [''rewrote header'']\<rparr>"
  have run1: "fix_vendor w = (Inr (), w1)"
    using fix_vendor_ok [OF assms(1) i] by (simp add: w1_def patched_def)
  have file1: "files w1 vendor_account_tsx = Some patched" by (simp add: w1_def)
  have "import_marker \<notin> set (drop (Suc i) (splitlines t))"
    using assms(2) i by (rule once_not_later)
  with marker_not_in_header patched_lines_subset [of "Suc i" t]
  have "import_marker \<notin> set (splitlines patched)"
    unfolding patched_def by blast
  with file1 have "fix_vendor w1 = (Inl ValueError, w1)" by (rule fix_vendor_fail)
  with run1 show ?thesis by blast
qed

theorem fix_vendor_rerun_witness:
  "\<exists>w1. fix_vendor once_world = (Inr (), w1) \<and> fix_vendor w1 = (Inl ValueError, w1)"
proof -
  have "files once_world vendor_account_tsx = Some once_tsx" by (simp add: once_world_def)
  from fix_vendor_rerun [OF this once_count] show ?thesis .
qed

lemma twice_first: "first_index import_marker (splitlines twice_tsx) 0"
  by (simp add: twice_lines first_index_def import_marker_def)

lemma sample_tail_no_boundary:
  "\<forall>l \<in> set [cps ''x'', cps ''import {'', cps ''y'']. \<forall>c \<in> set l. \<not> line_boundary c"
  by (simp add: cps_def line_boundary_def)

lemma y_no_boundary: "\<forall>l \<in> set [cps ''y'']. \<forall>c \<in> set l. \<not> line_boundary c"
  by (simp add: cps_def line_boundary_def)

lemma patched_twice_lines:
  "splitlines (join [10] (new_header @ [cps ''x'', cps ''import {'', cps ''y'']))
     = new_header @ [cps ''x'', cps ''import {'', cps ''y'']"
proof -
  have "\<forall>l \<in> set (new_header @ [cps ''x'', cps ''import {'', cps ''y'']).
          \<forall>c \<in> set l. \<not> line_boundary c"
    using new_header_no_boundary sample_tail_no_boundary by auto
  from splitlines_join [OF this] show ?thesis by (simp add: cps_def)
qed

lemma patched_again_lines:
  "splitlines (join [10] (new_header @ [cps ''y''])) = new_header @ [cps ''y'']"
proof -
  have "\<forall>l \<in> set (new_header @ [cps ''y'']). \<forall>c \<in> set l. \<not> line_boundary c"
    using new_header_no_boundary y_no_boundary by auto
  from splitlines_join [OF this] show ?thesis by (simp add: cps_def)
qed

lemma header_length: "length new_header = 4"
  by (simp add: new_header_lines)

lemma patched_twice_first:
  "first_index import_marker (new_header @ [cps ''x'', cps ''import {'', cps ''y'']) 5"
proof -
  have "\<forall>k<4. new_header ! k \<noteq> import_marker"
    using marker_not_in_header header_length by (metis nth_mem)
  then have "\<forall>k<5. (new_header @ [cps ''x'', cps ''import {'', cps ''y'']) ! k \<noteq> import_marker"
    using header_length
    by (auto simp: nth_append import_marker_def cps_def less_Suc_eq)
  moreover have "(new_header @ [cps ''x'', cps ''import {'', cps ''y'']) ! 5 = import_marker"
    using header_length by (simp add: nth_append import_marker_def)
  ultimately show ?thesis using header_length by (simp add: first_index_def)
qed

theorem fix_vendor_rerun_counterexample:
  "fst (fix_vendor twice_world) = Inr ()
     \<and> count_list (splitlines (the (files (snd (fix_vendor twice_world)) vendor_account_tsx)))
           import_marker = 1
     \<and> fst (fix_vendor (snd (fix_vendor twice_world))) = Inr ()
     \<and> files (snd (fix_vendor (snd (fix_vendor twice_world)))) vendor_account_tsx
           \<noteq> files (snd (fix_vendor twice_world)) vendor_account_tsx"
proof -
  define t1 where "t1 = join [10] (new_header @ [cps ''x'', cps ''import {'', cps ''y''])"
  define t2 where "t2 = join [10] (new_header @ [cps ''y''])"
  define w1 where "w1 = twice_world\<lparr>files := (files twice_world)(vendor_account_tsx \<mapsto> t1),
                            console := console twice_world @ [''rewrote header'']\<rparr>"
  define w2 where "w2 = w1\<lparr>files := (files w1)(vendor_account_tsx \<mapsto> t2),
                            console := console w1 @ [''rewrote header'']\<rparr>"
  have "files twice_world vendor_account_tsx = Some twice_tsx" by (simp add: twice_world_def)
  from fix_vendor_ok [OF this twice_first]
  have run1: "fix_vendor twice_world = (Inr (), w1)"
    by (simp add: w1_def t1_def twice_lines)
  have file1: "files w1 vendor_account_tsx = Some t1" by (simp add: w1_def)
  have lines1: "splitlines t1 = new_header @ [cps ''x'', cps ''import {'', cps ''y'']"
    unfolding t1_def by (rule patched_twice_lines)
  have "count_list new_header import_marker = 0"
    using marker_not_in_header by (simp add: count_list_0_iff)
  then have count1: "count_list (splitlines t1) import_marker = 1"
    by (simp add: lines1 count_list_append import_marker_def cps_def)
  have first1: "first_index import_marker (splitlines t1) 5"
    unfolding lines1 by (rule patched_twice_first)
  from fix_vendor_ok [OF file1 first1]
  have run2: "fix_vendor w1 = (Inr (), w2)"
    using header_length by (simp add: w2_def t2_def lines1)
  have "splitlines t2 \<noteq> splitlines t1"
    unfolding lines1 unfolding t2_def by (simp add: patched_again_lines)
  then have "t2 \<noteq> t1" by auto
  then have "files w2 vendor_account_tsx \<noteq> files w1 vendor_account_tsx"
    by (simp add: w2_def w1_def)
  with file1 count1 show ?thesis by (simp add: run1 run2)
qed


section \<open>The unfinished script\<close>

lemma temp_found:
  assumes "files w translations_ts = Some t"
    and "first_occurrence start_marker t 0 i" and "first_occurrence end_marker t i j"
  shows "temp w = (Inr (), w\<lparr>console := console w @ [''please rewrite manually'']\<rparr>)"
proof -
  have "str_index t start_marker 0 = Inr i" using assms(2) by (simp add: str_index_first)
  moreover have "str_index t end_marker i = Inr j" using assms(3) by (simp add: str_index_first)
  ultimately show ?thesis
    using assms(1) by (simp add: temp_def read_text_def print_def)
qed

lemma temp_not_found:
  assumes "files w translations_ts = Some t"
    and "\<not> (\<exists>i j. first_occurrence start_marker t 0 i \<and> first_occurrence end_marker t i j)"
  shows "temp w = (Inl ValueError, w)"
proof (cases "str_index t start_marker 0")
  case (Inl e)
  then have "e = ValueError" by (simp add: str_index_Inl)
  with Inl assms(1) show ?thesis by (simp add: temp_def read_text_def)
next
  case (Inr i)
  then have i: "first_occurrence start_marker t 0 i" by (simp add: str_index_first)
  show ?thesis
  proof (cases "str_index t end_marker i")
    case (Inl e)
    then have "e = ValueError" by (simp add: str_index_Inl)
    with Inl Inr assms(1) show ?thesis by (simp add: temp_def read_text_def)
  next
    case inr: (Inr j)
    then have "first_occurrence end_marker t i j" by (simp add: str_index_first)
    with i assms(2) show ?thesis by blast
  qed
qed

lemma temp_no_file:
  "files w translations_ts = None \<Longrightarrow> temp w = (Inl FileNotFoundError, w)"
  by (simp add: temp_def read_text_def)

text \<open>
  C9, as the code has it. No run of temp.py writes a file: the files are the same after
  it, whether the markers are there or not. When the file holds both markers (the end
  marker at or after the first start marker) the run prints the request to rewrite by
  hand and does nothing else. When a marker is missing, the \<open>ValueError\<close> of
  \<open>str.index\<close> ends the run before the \<open>print\<close>: nothing is printed.
\<close>

theorem temp_writes_nothing:
  "files (snd (temp w)) = files w
   \<and> (\<forall>t. files w translations_ts = Some t \<longrightarrow>
        (if \<exists>i j. first_occurrence start_marker t 0 i \<and> first_occurrence end_marker t i j
         then temp w = (Inr (), w\<lparr>console := console w @ [''please rewrite manually'']\<rparr>)
         else temp w = (Inl ValueError, w)))"
proof (intro conjI allI impI)
  show "files (snd (temp w)) = files w"
  proof (cases "files w translations_ts")
    case None
    then show ?thesis by (simp add: temp_no_file)
  next
    case (Some t)
    show ?thesis
    proof (cases "\<exists>i j. first_occurrence start_marker t 0 i \<and> first_occurrence end_marker t i j")
      case True
      then obtain i j where "first_occurrence start_marker t 0 i"
        and "first_occurrence end_marker t i j" by blast
      with Some show ?thesis by (simp add: temp_found)
    next
      case False
      with Some show ?thesis by (simp add: temp_not_found)
    qed
  qed
next
  fix t assume t: "files w translations_ts = Some t"
  show "if \<exists>i j. first_occurrence start_marker t 0 i \<and> first_occurrence end_marker t i j
         then temp w = (Inr (), w\<lparr>console := console w @ [''please rewrite manually'']\<rparr>)
         else temp w = (Inl ValueError, w)"
  proof (cases "\<exists>i j. first_occurrence start_marker t 0 i \<and> first_occurrence end_marker t i j")
    case True
    then obtain i j where "first_occurrence start_marker t 0 i"
      and "first_occurrence end_marker t i j" by blast
    with t have "temp w = (Inr (), w\<lparr>console := console w @ [''please rewrite manually'']\<rparr>)"
      by (rule temp_found)
    with True show ?thesis by simp
  next
    case False
    with t have "temp w = (Inl ValueError, w)" by (rule temp_not_found)
    with False show ?thesis by simp
  qed
qed

theorem temp_writes_nothing_witness:
  "temp demo_world = (Inr (), demo_world\<lparr>console := [''please rewrite manually'']\<rparr>)
   \<and> files (snd (temp demo_world)) = files demo_world"
proof -
  have f: "files demo_world translations_ts = Some demo_ts" by (simp add: demo_world_def)
  have m: "\<exists>i j. first_occurrence start_marker demo_ts 0 i \<and> first_occurrence end_marker demo_ts i j"
    using demo_first_start demo_first_end by blast
  from temp_writes_nothing [of demo_world] f
  have "if \<exists>i j. first_occurrence start_marker demo_ts 0 i \<and> first_occurrence end_marker demo_ts i j
         then temp demo_world = (Inr (), demo_world\<lparr>console := console demo_world @ [''please rewrite manually'']\<rparr>)
         else temp demo_world = (Inl ValueError, demo_world)"
    by blast
  with m have "temp demo_world = (Inr (), demo_world\<lparr>console := console demo_world @ [''please rewrite manually'']\<rparr>)"
    by simp
  then show ?thesis by (simp add: demo_world_def)
qed

theorem temp_silent_failure_counterexample:
  "fst (temp swapped_world) = Inl ValueError
   \<and> console (snd (temp swapped_world)) = console swapped_world"
proof -
  have "str_index swapped_ts start_marker 0 = Inr 41" by (rule swapped_start)
  moreover have "str_index swapped_ts end_marker 41 = Inl ValueError" by (rule swapped_end)
  ultimately have "temp swapped_world = (Inl ValueError, swapped_world)"
    by (simp add: temp_def read_text_def swapped_world_def)
  then show ?thesis by simp
qed


section \<open>The guarded replacement\<close>

lemma str_replace_no_occurrence:
  assumes "pat \<noteq> []"
  shows "\<forall>k. \<not> occurs_at pat s k \<Longrightarrow> str_replace s pat rep = s"
proof (induction s)
  case Nil
  show ?case using assms by (simp add: str_replace.simps)
next
  case (Cons c cs)
  from Cons.prems have np: "\<not> prefix pat (c # cs)"
    using occurs_at_0 [of pat "c # cs"] by blast
  from Cons.prems have "\<forall>k. \<not> occurs_at pat cs k"
    using occurs_at_Suc [of pat c cs] by blast
  then have "str_replace cs pat rep = cs" by (rule Cons.IH)
  with np assms show ?case by (subst str_replace.simps) simp
qed

lemma first_occurrence_Suc:
  assumes "first_occurrence sub (c # cs) 0 (Suc i)"
  shows "first_occurrence sub cs 0 i \<and> \<not> prefix sub (c # cs)"
proof -
  from assms have o: "occurs_at sub (c # cs) (Suc i)"
    and f: "\<forall>k<Suc i. \<not> occurs_at sub (c # cs) k"
    by (auto simp: first_occurrence_def)
  from o have "occurs_at sub cs i" by (simp add: occurs_at_Suc)
  moreover have "\<not> occurs_at sub cs k" if "k < i" for k
  proof -
    from that f have "\<not> occurs_at sub (c # cs) (Suc k)" by simp
    then show ?thesis by (simp add: occurs_at_Suc)
  qed
  moreover from f have "\<not> occurs_at sub (c # cs) 0" by simp
  ultimately show ?thesis by (simp add: first_occurrence_def occurs_at_0)
qed

lemma str_replace_first:
  assumes "pat \<noteq> []"
  shows "first_occurrence pat s 0 i \<Longrightarrow>
    str_replace s pat rep = take i s @ rep @ str_replace (drop (i + length pat) s) pat rep"
proof (induction i arbitrary: s)
  case 0
  then have p: "prefix pat s" by (simp add: first_occurrence_def occurs_at_0)
  with assms have "s \<noteq> []" by auto
  with p assms show ?case by (subst str_replace.simps) simp
next
  case (Suc i)
  from Suc.prems have "occurs_at pat s (Suc i)" by (simp add: first_occurrence_def)
  then have "s \<noteq> []" using assms by (auto simp: occurs_at_def)
  then obtain c cs where s: "s = c # cs" by (cases s) auto
  from Suc.prems have fo: "first_occurrence pat cs 0 i" and np: "\<not> prefix pat (c # cs)"
    using first_occurrence_Suc [of pat c cs i] by (simp_all add: s)
  have "str_replace (c # cs) pat rep = c # str_replace cs pat rep"
    using np assms by (subst str_replace.simps) simp
  also have "str_replace cs pat rep
      = take i cs @ rep @ str_replace (drop (i + length pat) cs) pat rep"
    using fo by (rule Suc.IH)
  finally show ?case by (simp add: s)
qed

lemma every_occurrence_replaced_unique:
  assumes "pat \<noteq> []" and "every_occurrence_replaced pat rep t r"
  shows "r = str_replace t pat rep"
  using assms(2)
proof (induction rule: every_occurrence_replaced.induct)
  case (none_left t)
  then show ?case using str_replace_no_occurrence [OF assms(1)] by simp
next
  case (replace_first t i r)
  from str_replace_first [OF assms(1) replace_first.hyps(1)] replace_first.IH
  show ?case by simp
qed

lemma str_replace_replaces_every_occurrence:
  assumes "pat \<noteq> []"
  shows "every_occurrence_replaced pat rep t (str_replace t pat rep)"
proof (induction "length t" arbitrary: t rule: less_induct)
  case less
  show ?case
  proof (cases "\<exists>k. occurs_at pat t k")
    case False
    then have no: "\<forall>k. \<not> occurs_at pat t k" by blast
    then have "str_replace t pat rep = t" by (rule str_replace_no_occurrence [OF assms])
    with no show ?thesis by (simp add: every_occurrence_replaced.none_left)
  next
    case True
    then obtain k where "occurs_at pat t k" ..
    then have "\<exists>i. first_occurrence pat t 0 i" by (rule first_occurrence_exists) simp
    then obtain i where i: "first_occurrence pat t 0 i" ..
    then have le: "i + length pat \<le> length t"
      by (simp add: first_occurrence_def occurs_at_def)
    from assms have lo: "0 < length pat" by simp
    have "length (drop (i + length pat) t) = length t - (i + length pat)" by simp
    also have "\<dots> < length t" using le lo by arith
    finally have "length (drop (i + length pat) t) < length t" .
    then have "every_occurrence_replaced pat rep (drop (i + length pat) t)
        (str_replace (drop (i + length pat) t) pat rep)"
      by (rule less.hyps)
    with i have "every_occurrence_replaced pat rep t
        (take i t @ rep @ str_replace (drop (i + length pat) t) pat rep)"
      by (rule every_occurrence_replaced.replace_first)
    then show ?thesis by (simp add: str_replace_first [OF assms i])
  qed
qed

lemma old_nonempty: "old \<noteq> []"
  by (simp add: old_def unlines_def)

lemma patch_translate_absent:
  assumes "files w translations_ts = Some t" and "\<forall>k. \<not> occurs_at old t k"
  shows "patch_translate w = (Inr (), w\<lparr>console := console w @ [''old block not found'']\<rparr>)"
  using assms by (simp add: patch_translate_def read_text_def str_contains_iff print_def)

lemma patch_translate_present:
  assumes "files w translations_ts = Some t" and "occurs_at old t k"
  shows "patch_translate w =
    (Inr (), w\<lparr>files := (files w)(translations_ts \<mapsto> str_replace t old new),
                console := console w @ [''replaced'']\<rparr>)"
proof -
  from assms(2) have "str_contains old t" by (auto simp: str_contains_iff)
  with assms(1) show ?thesis
    by (simp add: patch_translate_def read_text_def print_def write_text_def)
qed

lemma occurs_at_hd:
  assumes "occurs_at sub s k" and "sub \<noteq> []"
  shows "k < length s \<and> s ! k = hd sub"
proof -
  from assms have k: "k < length s" by (cases sub) (auto simp: occurs_at_def)
  from assms(1) have "take (length sub) (drop k s) = sub" by (simp add: occurs_at_def)
  then have "hd (take (length sub) (drop k s)) = hd sub" by simp
  moreover have "hd (take (length sub) (drop k s)) = s ! k"
    using k assms(2) by (cases sub) (simp_all add: hd_drop_conv_nth)
  ultimately show ?thesis using k by simp
qed

lemma no_occurrence_before:
  assumes "sub \<noteq> []" and "hd sub \<notin> set pre" and "k < length pre"
  shows "\<not> occurs_at sub (pre @ rest) k"
proof
  assume "occurs_at sub (pre @ rest) k"
  from occurs_at_hd [OF this assms(1)] have "(pre @ rest) ! k = hd sub" by simp
  with assms(3) have "pre ! k = hd sub" by (simp add: nth_append)
  with assms(2,3) show False by (metis nth_mem)
qed

lemma old_hd: "hd old = of_char CHR ''e''"
  by (simp add: old_def unlines_def hd_cps_append)

lemma old_length: "length old = 442"
  by (simp add: old_def unlines_def cps_def)

lemma unpatched_first: "first_occurrence old unpatched_ts 0 7"
proof -
  have len: "length (cps ''// top\<newline>'') = 7" by (simp add: cps_def)
  have "occurs_at old unpatched_ts 7"
    using len by (simp add: occurs_at_prefix unpatched_ts_def)
  moreover have "\<not> occurs_at old unpatched_ts k" if "k < 7" for k
    unfolding unpatched_ts_def
  proof (rule no_occurrence_before [OF old_nonempty])
    show "hd old \<notin> set (cps ''// top\<newline>'')" by (simp add: old_hd cps_def)
    show "k < length (cps ''// top\<newline>'')" using that len by simp
  qed
  ultimately show ?thesis by (simp add: first_occurrence_def)
qed

lemma unpatched_replaced:
  "str_replace unpatched_ts old new = cps ''// top\<newline>'' @ new @ cps ''// tail\<newline>''"
proof -
  have len: "length (cps ''// top\<newline>'') = 7" by (simp add: cps_def)
  have "\<forall>k. \<not> occurs_at old (cps ''// tail\<newline>'') k"
    by (simp add: occurs_at_def old_length cps_def)
  then have tail: "str_replace (cps ''// tail\<newline>'') old new = cps ''// tail\<newline>''"
    by (rule str_replace_no_occurrence [OF old_nonempty])
  have "take 7 unpatched_ts = cps ''// top\<newline>''"
    using len by (simp add: unpatched_ts_def)
  moreover have "drop (7 + length old) unpatched_ts = cps ''// tail\<newline>''"
    using len by (simp add: unpatched_ts_def)
  ultimately show ?thesis
    using str_replace_first [OF old_nonempty unpatched_first] by (simp add: tail)
qed

lemma demo_has_no_old: "\<forall>k. \<not> occurs_at old demo_ts k"
  by (simp add: occurs_at_def old_length demo_ts_def cps_def)

text \<open>
  C7. When the old block does not occur in the file, the script prints that it was not
  found and writes nothing. When it occurs, the script writes the text with every
  occurrence of the old block replaced by the new one (the occurrences taken from the
  left, without overlap, as \<open>str.replace\<close> does) and prints that it replaced.
\<close>

theorem patch_translate_guarded:
  assumes "files w translations_ts = Some t"
  shows "((\<forall>k. \<not> occurs_at old t k) \<longrightarrow>
            patch_translate w =
              (Inr (), w\<lparr>console := console w @ [''old block not found'']\<rparr>))
       \<and> ((\<exists>k. occurs_at old t k) \<longrightarrow>
            (\<exists>r. every_occurrence_replaced old new t r \<and>
               patch_translate w =
                 (Inr (), w\<lparr>files := (files w)(translations_ts \<mapsto> r),
                             console := console w @ [''replaced'']\<rparr>)))"
proof (intro conjI impI)
  assume "\<forall>k. \<not> occurs_at old t k"
  with assms show "patch_translate w =
      (Inr (), w\<lparr>console := console w @ [''old block not found'']\<rparr>)"
    by (rule patch_translate_absent)
next
  assume "\<exists>k. occurs_at old t k"
  then obtain k where "occurs_at old t k" ..
  with assms have "patch_translate w =
      (Inr (), w\<lparr>files := (files w)(translations_ts \<mapsto> str_replace t old new),
                  console := console w @ [''replaced'']\<rparr>)"
    by (rule patch_translate_present)
  moreover have "every_occurrence_replaced old new t (str_replace t old new)"
    by (rule str_replace_replaces_every_occurrence [OF old_nonempty])
  ultimately have "every_occurrence_replaced old new t (str_replace t old new) \<and>
      patch_translate w =
      (Inr (), w\<lparr>files := (files w)(translations_ts \<mapsto> str_replace t old new),
                  console := console w @ [''replaced'']\<rparr>)" by simp
  then show "\<exists>r. every_occurrence_replaced old new t r \<and>
               patch_translate w =
                 (Inr (), w\<lparr>files := (files w)(translations_ts \<mapsto> r),
                             console := console w @ [''replaced'']\<rparr>)"
    by (rule exI)
qed

theorem patch_translate_guarded_witness:
  "patch_translate demo_world = (Inr (), demo_world\<lparr>console := [''old block not found'']\<rparr>)
   \<and> patch_translate unpatched_world =
       (Inr (), \<lparr>files = [translations_ts \<mapsto> cps ''// top\<newline>'' @ new @ cps ''// tail\<newline>''],
                 console = [''replaced'']\<rparr>)"
proof -
  have f1: "files demo_world translations_ts = Some demo_ts" by (simp add: demo_world_def)
  have f2: "files unpatched_world translations_ts = Some unpatched_ts"
    by (simp add: unpatched_world_def)
  from patch_translate_guarded [OF f1] demo_has_no_old
  have 1: "patch_translate demo_world =
      (Inr (), demo_world\<lparr>console := console demo_world @ [''old block not found'']\<rparr>)"
    by blast
  have "\<exists>k. occurs_at old unpatched_ts k"
    using unpatched_first by (auto simp: first_occurrence_def)
  with patch_translate_guarded [OF f2]
  obtain r where r: "every_occurrence_replaced old new unpatched_ts r"
    and 2: "patch_translate unpatched_world =
      (Inr (), unpatched_world\<lparr>files := (files unpatched_world)(translations_ts \<mapsto> r),
                  console := console unpatched_world @ [''replaced'']\<rparr>)"
    by blast
  from every_occurrence_replaced_unique [OF old_nonempty r]
  have "r = cps ''// top\<newline>'' @ new @ cps ''// tail\<newline>''"
    by (simp add: unpatched_replaced)
  with 1 2 show ?thesis by (simp add: demo_world_def unpatched_world_def)
qed


section \<open>The mojibake repair\<close>

lemma mod_lead2: "x < 32 \<Longrightarrow> (0xC0 + x) mod 32 = (x::nat)"
proof -
  assume x: "x < 32"
  have "(0xC0 + x) mod 32 = (x + 32 * 6) mod 32" by (simp add: add.commute)
  also have "\<dots> = x mod 32" by (rule mod_mult_self2)
  finally show ?thesis using x by simp
qed

lemma mod_lead3: "x < 16 \<Longrightarrow> (0xE0 + x) mod 16 = (x::nat)"
proof -
  assume x: "x < 16"
  have "(0xE0 + x) mod 16 = (x + 16 * 14) mod 16" by (simp add: add.commute)
  also have "\<dots> = x mod 16" by (rule mod_mult_self2)
  finally show ?thesis using x by simp
qed

lemma mod_lead4: "x < 8 \<Longrightarrow> (0xF0 + x) mod 8 = (x::nat)"
proof -
  assume x: "x < 8"
  have "(0xF0 + x) mod 8 = (x + 8 * 30) mod 8" by (simp add: add.commute)
  also have "\<dots> = x mod 8" by (rule mod_mult_self2)
  finally show ?thesis using x by simp
qed

lemma mod_cont: "x < 64 \<Longrightarrow> (0x80 + x) mod 64 = (x::nat)"
proof -
  assume x: "x < 64"
  have "(0x80 + x) mod 64 = (x + 64 * 2) mod 64" by (simp add: add.commute)
  also have "\<dots> = x mod 64" by (rule mod_mult_self2)
  finally show ?thesis using x by simp
qed

lemma split64:
  fixes c :: nat
  obtains q r where "c = q * 64 + r" and "r < 64" and "q = c div 64" and "r = c mod 64"
  by (metis div_mult_mod_eq mod_less_divisor zero_less_numeral)

lemma div4096: "(c::nat) div 4096 = c div 64 div 64"
proof -
  have "c div 4096 = c div (64 * 64)" by simp
  also have "\<dots> = c div 64 div 64" by (rule div_mult2_eq)
  finally show ?thesis .
qed

lemma div262144: "(c::nat) div 262144 = c div 64 div 64 div 64"
proof -
  have "c div 262144 = c div (4096 * 64)" by simp
  also have "\<dots> = c div 4096 div 64" by (rule div_mult2_eq)
  finally show ?thesis by (simp only: div4096)
qed

lemma div4096_mod: "(c::nat) div 4096 mod 64 = c div 64 div 64 mod 64"
  by (simp only: div4096)

lemma decode_one_byte:
  assumes "c < 0x80"
  shows "utf8_decode_from Idle (c # rest) = c # utf8_decode_from Idle rest"
  using assms by (simp add: utf8_lead_def)

lemma cont_step_last:
  assumes "x < 64"
  shows "utf8_handler (Pending cp 1 0x80 0xBF) (0x80 + x) = ([cp * 64 + x], Idle)"
  using assms by (simp add: mod_cont)

lemma cont_step_more:
  assumes "x < 64" and "1 < n"
  shows "utf8_handler (Pending cp n 0x80 0xBF) (0x80 + x)
           = ([], Pending (cp * 64 + x) (n - 1) 0x80 0xBF)"
  using assms by (simp add: mod_cont)

lemma decode_two_bytes:
  assumes "0x80 \<le> c" and "c < 0x800"
  shows "utf8_decode_from Idle ((0xC0 + c div 64) # (0x80 + c mod 64) # rest)
           = c # utf8_decode_from Idle rest"
proof -
  obtain q r where c: "c = q * 64 + r" and r: "r < 64" and q: "q = c div 64" and r': "r = c mod 64"
    by (rule split64)
  from c r assms have q_bounds: "2 \<le> q" "q < 32" by linarith+
  then have lead: "utf8_lead (0xC0 + q) = ([], Pending q 1 0x80 0xBF)"
    by (simp add: utf8_lead_def mod_lead2)
  have "utf8_decode_from Idle ((0xC0 + q) # (0x80 + r) # rest) = c # utf8_decode_from Idle rest"
    by (simp only: utf8_decode_from.simps utf8_handler.simps(1) lead cont_step_last [OF r]
        prod.case append_Nil append_Cons c)
  then show ?thesis by (simp only: q r')
qed

lemma decode_three_bytes:
  assumes "0x800 \<le> c" and "c < 0x10000" and "scalar_value c"
  shows "utf8_decode_from Idle
           ((0xE0 + c div 4096) # (0x80 + (c div 64) mod 64) # (0x80 + c mod 64) # rest)
           = c # utf8_decode_from Idle rest"
proof -
  obtain q r where c: "c = q * 64 + r" and r: "r < 64" and q: "q = c div 64" and r': "r = c mod 64"
    by (rule split64)
  obtain a b where qq: "q = a * 64 + b" and b: "b < 64" and a: "a = q div 64" and b': "b = q mod 64"
    by (rule split64)
  from assms(3) have sc: "c < 0xD800 \<or> 0xE000 \<le> c" by (auto simp: scalar_value_def)
  from c r qq b assms(1,2) have a16: "a < 16" and lo: "a = 0 \<longrightarrow> 32 \<le> b" by linarith+
  from c r qq b sc have hi: "a = 13 \<longrightarrow> b < 32" by linarith
  have lead: "utf8_lead (0xE0 + a) =
      ([], Pending a 2 (if a = 0 then 0xA0 else 0x80) (if a = 13 then 0x9F else 0xBF))"
    using a16 by (simp add: utf8_lead_def mod_lead3)
  have step2: "utf8_handler (Pending a 2 (if a = 0 then 0xA0 else 0x80)
        (if a = 13 then 0x9F else 0xBF)) (0x80 + b) = ([], Pending (a * 64 + b) 1 0x80 0xBF)"
    using lo hi b by (auto simp: mod_cont)
  have "utf8_decode_from Idle ((0xE0 + a) # (0x80 + b) # (0x80 + r) # rest)
      = c # utf8_decode_from Idle rest"
    by (simp only: utf8_decode_from.simps utf8_handler.simps(1) lead step2 cont_step_last [OF r]
        prod.case append_Nil append_Cons c qq)
  moreover have "c div 4096 = a" by (simp only: div4096 a q)
  ultimately show ?thesis by (simp only: q [symmetric] b' [symmetric] r' [symmetric])
qed

lemma decode_four_bytes:
  assumes "0x10000 \<le> c" and "c \<le> 0x10FFFF"
  shows "utf8_decode_from Idle
           ((0xF0 + c div 262144) # (0x80 + (c div 4096) mod 64) # (0x80 + (c div 64) mod 64)
              # (0x80 + c mod 64) # rest)
           = c # utf8_decode_from Idle rest"
proof -
  obtain q r where c: "c = q * 64 + r" and r: "r < 64" and q: "q = c div 64" and r': "r = c mod 64"
    by (rule split64)
  obtain a b where qq: "q = a * 64 + b" and b: "b < 64" and a: "a = q div 64" and b': "b = q mod 64"
    by (rule split64)
  obtain e f where aa: "a = e * 64 + f" and f: "f < 64" and e: "e = a div 64" and f': "f = a mod 64"
    by (rule split64)
  from c r qq b aa f assms have e4: "e \<le> 4" and lo: "e = 0 \<longrightarrow> 16 \<le> f"
    and hi: "e = 4 \<longrightarrow> f < 16" by linarith+
  have lead: "utf8_lead (0xF0 + e) =
      ([], Pending e 3 (if e = 0 then 0x90 else 0x80) (if e = 4 then 0x8F else 0xBF))"
    using e4 by (simp add: utf8_lead_def mod_lead4)
  have step2: "utf8_handler (Pending e 3 (if e = 0 then 0x90 else 0x80)
        (if e = 4 then 0x8F else 0xBF)) (0x80 + f) = ([], Pending (e * 64 + f) 2 0x80 0xBF)"
    using lo hi f by (auto simp: mod_cont)
  have step3: "utf8_handler (Pending (e * 64 + f) 2 0x80 0xBF) (0x80 + b)
      = ([], Pending ((e * 64 + f) * 64 + b) 1 0x80 0xBF)"
    using cont_step_more [OF b, of 2] by simp
  have "utf8_decode_from Idle ((0xF0 + e) # (0x80 + f) # (0x80 + b) # (0x80 + r) # rest)
      = c # utf8_decode_from Idle rest"
    by (simp only: utf8_decode_from.simps utf8_handler.simps(1) lead step2 step3
        cont_step_last [OF r] prod.case append_Nil append_Cons c qq aa)
  moreover have "c div 262144 = e" by (simp only: div262144 e a q)
  moreover have "c div 4096 mod 64 = f" by (simp only: div4096 f' a q)
  ultimately show ?thesis by (simp only: q [symmetric] b' [symmetric] r' [symmetric])
qed

lemma decode_encode1:
  assumes "scalar_value c"
  shows "utf8_decode_from Idle (utf8_encode1 c @ rest) = c # utf8_decode_from Idle rest"
proof -
  from assms have "c \<le> 0x10FFFF" by (auto simp: scalar_value_def)
  then consider "c < 0x80" | "0x80 \<le> c" "c < 0x800" | "0x800 \<le> c" "c < 0x10000"
    | "0x10000 \<le> c" "c \<le> 0x10FFFF"
    by linarith
  then show ?thesis
  proof cases
    case 1
    then show ?thesis using decode_one_byte [OF 1]
      by (simp add: utf8_encode1_def del: utf8_decode_from.simps)
  next
    case 2
    then show ?thesis using decode_two_bytes [OF 2]
      by (simp add: utf8_encode1_def del: utf8_decode_from.simps)
  next
    case 3
    then show ?thesis using decode_three_bytes [OF 3 assms]
      by (simp add: utf8_encode1_def del: utf8_decode_from.simps)
  next
    case 4
    then show ?thesis using decode_four_bytes [OF 4]
      by (simp add: utf8_encode1_def del: utf8_decode_from.simps)
  qed
qed

lemma decode_mojibake:
  "list_all scalar_value d \<Longrightarrow> utf8_decode_from Idle (mojibake_of d) = d"
  by (induction d) (simp_all add: mojibake_of_def decode_encode1 del: utf8_decode_from.simps(2))

lemma encode1_bytes: "scalar_value c \<Longrightarrow> \<forall>x \<in> set (utf8_encode1 c). x < 256"
proof -
  assume sc: "scalar_value c"
  obtain q r where c: "c = q * 64 + r" and r: "r < 64" and q: "q = c div 64" and r': "r = c mod 64"
    by (rule split64)
  obtain a b where qq: "q = a * 64 + b" and b: "b < 64" and a: "a = q div 64" and b': "b = q mod 64"
    by (rule split64)
  obtain e f where aa: "a = e * 64 + f" and f: "f < 64" and e: "e = a div 64" and f': "f = a mod 64"
    by (rule split64)
  have d1: "c div 4096 = a" by (simp only: div4096 a q)
  have d2: "c div 262144 = e" by (simp only: div262144 e a q)
  from sc have c_le: "c \<le> 0x10FFFF" by (auto simp: scalar_value_def)
  from c r qq b aa f c_le have e4: "e \<le> 4" by linarith
  have two: "c < 0x800 \<longrightarrow> q < 32" using c r by linarith
  have three: "c < 0x10000 \<longrightarrow> a < 16" using c r qq b by linarith
  show ?thesis
    unfolding utf8_encode1_def d1 d2 q [symmetric] r' [symmetric] b' [symmetric] f' [symmetric]
    using r b f e4 two three by auto
qed

lemma buffer_of_mojibake:
  "list_all scalar_value d \<Longrightarrow> buffer_from_binary (mojibake_of d) = mojibake_of d"
proof -
  assume "list_all scalar_value d"
  then have "\<forall>x \<in> set (mojibake_of d). x < 256"
    using encode1_bytes by (auto simp: mojibake_of_def list_all_iff)
  then show ?thesis unfolding buffer_from_binary_def by (simp add: map_idI)
qed

lemma has_arabic_units:
  "has_arabic (concat (map utf16_units d)) \<longleftrightarrow> (\<exists>c \<in> set d. 0x0600 \<le> c \<and> c \<le> 0x06FF)"
proof (induction d)
  case Nil
  show ?case by (simp add: has_arabic_def)
next
  case (Cons c d)
  have "has_arabic (utf16_units c) \<longleftrightarrow> 0x0600 \<le> c \<and> c \<le> 0x06FF"
    by (auto simp: has_arabic_def utf16_units_def)
  moreover have "has_arabic (xs @ ys) \<longleftrightarrow> has_arabic xs \<or> has_arabic ys" for xs ys
    by (auto simp: has_arabic_def list_ex_iff)
  ultimately show ?case using Cons.IH by simp
qed

lemma decode_invalid_lead:
  assumes "0x80 \<le> b \<and> b < 0xC2 \<or> 0xF4 < b"
  shows "utf8_decode_from Idle (b # rest) = 0xFFFD # utf8_decode_from Idle rest"
  using assms by (auto simp: utf8_lead_def)

lemma decode_truncated: "utf8_decode_from (Pending cp n lower upper) [] = [0xFFFD]"
  by simp

lemma decode_bad_continuation:
  assumes "\<not> (lower \<le> b \<and> b \<le> upper)"
  shows "utf8_decode_from (Pending cp n lower upper) (b # rest)
           = 0xFFFD # utf8_decode_from Idle (b # rest)"
proof -
  obtain out st where lead: "utf8_lead b = (out, st)" by (cases "utf8_lead b")
  from assms have "utf8_handler (Pending cp n lower upper) b = (0xFFFD # out, st)"
    by (auto simp: lead)
  then show ?thesis by (simp add: lead)
qed

lemma fixMojibake_caught:
  assumes "buffer_from rt v = None \<or> (\<exists>buf. buffer_from rt v = Some buf \<and> to_string rt buf = None)"
  shows "fixMojibake rt v = v"
  using assms by (auto simp: fixMojibake_def)

lemma fixMojibake_no_buffer: "fixMojibake no_buffer v = v"
  by (simp add: fixMojibake_def no_buffer_def)

lemma fixMojibake_node:
  "fixMojibake node v =
     (if has_arabic (to_string_utf8 (map (\<lambda>c. c mod 256) v))
      then to_string_utf8 (map (\<lambda>c. c mod 256) v) else v)"
  by (simp add: fixMojibake_def node_def buffer_from_binary_def Let_def)

lemma fixMojibake_mojibake:
  assumes "list_all scalar_value d"
  shows "fixMojibake node (mojibake_of d) =
     (if \<exists>c \<in> set d. 0x0600 \<le> c \<and> c \<le> 0x06FF then concat (map utf16_units d)
      else mojibake_of d)"
proof -
  have "to_string_utf8 (buffer_from_binary (mojibake_of d)) = concat (map utf16_units d)"
    using assms by (simp add: to_string_utf8_def buffer_of_mojibake decode_mojibake)
  then show ?thesis by (simp add: fixMojibake_def node_def Let_def has_arabic_units)
qed

lemma beh_scenario: "fixMojibake node [0xD8, 0xA8] = [0x0628]"
  by (simp add: fixMojibake_node to_string_utf8_def utf8_lead_def utf16_units_def has_arabic_def)

lemma hello_scenario: "fixMojibake node (cps ''hello'') = cps ''hello''"
  by (simp add: fixMojibake_node to_string_utf8_def utf8_lead_def utf16_units_def has_arabic_def
      cps_def)

text \<open>
  C8 against the code. The \<open>catch\<close> block is there to give the input back when
  decoding goes wrong, and in a runtime without \<open>Buffer\<close>, or one whose decoding
  throws, it does so for every input.
  With the Buffer of Node.js nothing in the \<open>try\<close> block throws: a code unit above 255
  is cut to its low byte and a malformed byte sequence decodes to U+FFFD, so the function
  returns the decoded text whenever that has an Arabic character. The Arabic text
  U+06D8 U+06A8 comes back as U+0628, U+0100 U+00D8 U+00A8 as U+0000 U+0628, and
  the stray byte in U+00D8 U+00A8 U+00FF, the cut-off sequence in U+00D8 U+00A8 U+00D8
  and the bad continuation in U+00E0 U+0080 U+00D8 U+00A8 each end up as U+FFFD in the
  result; none of these inputs is returned unchanged. On well-formed mojibake the code
  does what is asked: U+00D8 U+00A8 becomes U+0628 and \<open>hello\<close> stays.
\<close>

theorem fixMojibake_never_falls_back_on_node:
  "fixMojibake node v =
     (if has_arabic (to_string_utf8 (map (\<lambda>c. c mod 256) v))
      then to_string_utf8 (map (\<lambda>c. c mod 256) v) else v)
   \<and> fixMojibake node [0x06D8, 0x06A8] = [0x0628]
   \<and> fixMojibake node [0x0100, 0xD8, 0xA8] = [0, 0x0628]
   \<and> fixMojibake node [0xD8, 0xA8, 0xFF] = [0x0628, 0xFFFD]
   \<and> fixMojibake node [0xD8, 0xA8, 0xD8] = [0x0628, 0xFFFD]
   \<and> fixMojibake node [0xE0, 0x80, 0xD8, 0xA8] = [0xFFFD, 0xFFFD, 0x0628]
   \<and> fixMojibake node [0xD8, 0xA8] = [0x0628]
   \<and> fixMojibake node (cps ''hello'') = cps ''hello''
   \<and> fixMojibake no_buffer w = w
   \<and> fixMojibake \<lparr>buffer_from = (\<lambda>v. Some (buffer_from_binary v)),
                    to_string = (\<lambda>buf. None)\<rparr> w = w"
proof -
  have 1: "fixMojibake node [0x06D8, 0x06A8] = [0x0628]"
    by (simp add: fixMojibake_node to_string_utf8_def utf8_lead_def utf16_units_def
        has_arabic_def)
  have 2: "fixMojibake node [0x0100, 0xD8, 0xA8] = [0, 0x0628]"
    by (simp add: fixMojibake_node to_string_utf8_def utf8_lead_def utf16_units_def
        has_arabic_def)
  have 3: "fixMojibake node [0xD8, 0xA8, 0xFF] = [0x0628, 0xFFFD]"
    by (simp add: fixMojibake_node to_string_utf8_def utf8_lead_def utf16_units_def
        has_arabic_def)
  have 4: "fixMojibake node [0xD8, 0xA8, 0xD8] = [0x0628, 0xFFFD]"
    by (simp add: fixMojibake_node to_string_utf8_def utf8_lead_def utf16_units_def
        has_arabic_def)
  have 5: "fixMojibake node [0xE0, 0x80, 0xD8, 0xA8] = [0xFFFD, 0xFFFD, 0x0628]"
    by (simp add: fixMojibake_node to_string_utf8_def utf8_lead_def utf16_units_def
        has_arabic_def)
  have 6: "fixMojibake \<lparr>buffer_from = (\<lambda>v. Some (buffer_from_binary v)),
                    to_string = (\<lambda>buf. None)\<rparr> w = w"
    by (simp add: fixMojibake_def)
  show ?thesis
    using fixMojibake_node [of v] 1 2 3 4 5 beh_scenario hello_scenario
      fixMojibake_no_buffer [of w] 6
    by (intro conjI)
qed

end
